theory Spec2Isabelle
  imports Main "HOL-Library.Word" "HOL-Library.Sublist"
begin

section \<open>The parallel task pipeline of \<^verbatim>\<open>pipeline/parallel_task_pipeline.go\<close>\<close>

subsection \<open>Values, tasks and task providers\<close>

text \<open>
  Go's \<^verbatim>\<open>any\<close> is an interface value: either nil or a value together with its dynamic
  type, which is never an interface type. The universe below has the dynamic types the
  pipeline's callers use.
\<close>

datatype any = ANil | AString string | AInt int | ABool bool

datatype dyntype = TString | TInt | TBool

fun dynamic_type :: "any \<Rightarrow> dyntype option" where
  "dynamic_type ANil = None"
| "dynamic_type (AString _) = Some TString"
| "dynamic_type (AInt _) = Some TInt"
| "dynamic_type (ABool _) = Some TBool"

text \<open>
  The types a type parameter constrained by \<^verbatim>\<open>any\<close> can be instantiated with: a
  concrete type, or an interface type, given by the set of dynamic types that implement it.
  The empty interface \<^verbatim>\<open>any\<close> itself is \<open>Interface UNIV\<close>; an interface with a method
  that none of the types of the universe has is \<open>Interface {}\<close>.
\<close>

datatype gotype = Concrete dyntype | Interface "dyntype set"

datatype panic =
    InterfaceConversion
  | NilDereference
  | CloseOfClosedChannel
  | IndexOutOfRange

datatype failure = Err string | Panic panic

text \<open>
  \<^verbatim>\<open>type Task func(input any) (output any, ok bool)\<close>. A Go function may panic instead
  of returning, so a task returns a panic or its pair of results.
\<close>

type_synonym Task = "any \<Rightarrow> panic + (any \<times> bool)"

text \<open>
  The type assertion \<^verbatim>\<open>input.(I)\<close>. It panics on the nil interface value whatever
  \<open>I\<close> is. On any other value it holds for a concrete \<open>I\<close> when the dynamic type of the
  value is \<open>I\<close>, and for an interface type \<open>I\<close> when the dynamic type implements \<open>I\<close>.
\<close>

fun asserts_to :: "dyntype \<Rightarrow> gotype \<Rightarrow> bool" where
  "asserts_to t (Concrete c) = (t = c)"
| "asserts_to t (Interface ts) = (t \<in> ts)"

definition type_assert :: "gotype \<Rightarrow> any \<Rightarrow> panic + any" where
  "type_assert I input =
     (case dynamic_type input of
        None \<Rightarrow> Inl InterfaceConversion
      | Some t \<Rightarrow> if asserts_to t I then Inr input else Inl InterfaceConversion)"

text \<open>
  \<^verbatim>\<open>func (g GenericTaskProvider[I, O]) Task() Task\<close>: the returned closure asserts the
  input to \<open>I\<close> and calls \<open>g\<close> on it. The typed function \<open>g\<close> is given on the universe
  \<open>any\<close> and is only ever applied to values the assertion to \<open>I\<close> lets through.
\<close>

definition GenericTaskProvider_Task :: "gotype \<Rightarrow> (any \<Rightarrow> any \<times> bool) \<Rightarrow> Task" where
  "GenericTaskProvider_Task I g =
     (\<lambda>input. case type_assert I input of Inl p \<Rightarrow> Inl p | Inr v \<Rightarrow> Inr (g v))"

text \<open>
  \<^verbatim>\<open>TaskProvider\<close> is an interface with the single method \<^verbatim>\<open>Task()\<close>. A value of
  this type is the nil interface value or an implementation: the generic adapter, or any other
  type with that method, given by the task its method returns.

  \<open>provider_Task\<close> is the call \<^verbatim>\<open>provider.Task()\<close>: on the nil interface value there
  is no method to call and the call panics with a nil pointer dereference.
\<close>

datatype TaskProvider =
    NilTaskProvider
  | GenericTaskProvider gotype "any \<Rightarrow> any \<times> bool"
  | OtherTaskProvider Task

fun provider_Task :: "TaskProvider \<Rightarrow> panic + Task" where
  "provider_Task NilTaskProvider = Inl NilDereference"
| "provider_Task (GenericTaskProvider I g) = Inr (GenericTaskProvider_Task I g)"
| "provider_Task (OtherTaskProvider t) = Inr t"

subsection \<open>Jobs, stages and the controller\<close>

text \<open>
  A \<^verbatim>\<open>*Job\<close> is an address in the store \<open>heap\<close>; \<open>FinishedC\<close> is the identity of the
  channel made for the job, and \<open>tp\<close> the position in \<open>pipelines\<close> of the stage the job
  points to.
\<close>

record Job =
  Input :: any
  Output :: any
  Ok :: bool
  FinishedC :: nat
  tp :: nat

text \<open>
  The fields of \<^verbatim>\<open>taskPipeline\<close>. Of the channel \<^verbatim>\<open>jobC\<close> the record keeps the
  capacity it was made with; its buffered contents are in the controller's \<open>jobC\<close>.
\<close>

record taskPipeline =
  index :: "8 word"
  jobC_cap :: "8 word"
  jobTask :: Task

text \<open>
  Program points of the goroutine \<^verbatim>\<open>tp.loop()\<close>, one per blocking operation:
  the outer select (\<open>LoopSelect\<close>), the inner select on a job's \<^verbatim>\<open>FinishedC\<close>
  (\<open>LoopWait job chan\<close>, the channel operand is evaluated on entering the select),
  the send on \<^verbatim>\<open>outputC\<close> (\<open>LoopOutput job\<close>), the select inside \<^verbatim>\<open>job.do()\<close>
  (\<open>LoopDo job\<close>), and the state after \<^verbatim>\<open>return\<close>.
\<close>

datatype loop_pc =
    LoopSelect
  | LoopWait nat nat
  | LoopOutput nat
  | LoopDo nat
  | LoopReturned

text \<open>
  Program points of a goroutine \<^verbatim>\<open>j.run()\<close>: before the task call, in the select
  sending on the job's \<^verbatim>\<open>FinishedC\<close> (the channel evaluated on entry), and exited.
\<close>

datatype run_pc = RunTask | RunSelect nat | RunExited

text \<open>
  The controller \<^verbatim>\<open>ParallelTaskPipeline\<close> together with the run-time state its methods
  and goroutines act on: whether \<^verbatim>\<open>closeC\<close> is closed, the buffer of every stage's
  \<^verbatim>\<open>jobC\<close>, the program point of every stage's loop, the store of jobs, the number of
  completion channels made so far, the \<^verbatim>\<open>run\<close> goroutines in the order they were started
  (job address and program point), and a panic that ended the process. Buffers and loops are
  indexed by the position of the stage; positions from \<open>pipelineCount\<close> on are never used.

  Three history fields record what happened and influence nothing:
  \<open>admitted i\<close> lists the jobs sent into stage \<open>i\<close>'s \<^verbatim>\<open>jobC\<close> with their input, in
  the order of the sends; \<open>handled i\<close> lists the jobs stage \<open>i\<close>'s loop is done with
  (forwarded, delivered or dropped), in that order; \<open>received\<close> lists the values a consumer
  received from \<^verbatim>\<open>outputC\<close> with the job they came from.
\<close>

record ParallelTaskPipeline =
  pipelineCount :: "8 word"
  pipelines :: "taskPipeline list"
  noOutput :: bool
  closed :: bool
  jobC :: "nat \<Rightarrow> nat list"
  loops :: "nat \<Rightarrow> loop_pc"
  heap :: "Job list"
  chans :: nat
  runs :: "(nat \<times> run_pc) list"
  panicked :: "panic option"
  admitted :: "nat \<Rightarrow> (nat \<times> any) list"
  handled :: "nat \<Rightarrow> nat list"
  received :: "(nat \<times> any) list"

subsection \<open>Construction\<close>

text \<open>
  The loop \<^verbatim>\<open>for i := uint8(0); i < pipelineCount; i++\<close> of
  \<^verbatim>\<open>RunParallelTaskPipeline\<close>, returning the stages it builds in order. In each round
  the two slices are indexed, which panics out of range, and the provider's \<^verbatim>\<open>Task()\<close>
  is called, which panics on a nil provider; the first panic ends the loop.
\<close>

function build_pipelines ::
  "8 word \<Rightarrow> 8 word \<Rightarrow> 8 word list \<Rightarrow> TaskProvider list \<Rightarrow> panic + taskPipeline list" where
  "build_pipelines i n maxConcurrentQuantities pipelineTaskProviders =
     (if i < n then
        (if unat i < length maxConcurrentQuantities \<and> unat i < length pipelineTaskProviders then
           (case provider_Task (pipelineTaskProviders ! unat i) of
              Inl p \<Rightarrow> Inl p
            | Inr t \<Rightarrow>
                (case build_pipelines (i + 1) n maxConcurrentQuantities pipelineTaskProviders of
                   Inl p \<Rightarrow> Inl p
                 | Inr tps \<Rightarrow>
                     Inr (\<lparr>index = i,
                           jobC_cap = maxConcurrentQuantities ! unat i,
                           jobTask = t\<rparr> # tps)))
         else Inl IndexOutOfRange)
      else Inr [])"
  by pat_completeness auto
termination
proof (relation "measure (\<lambda>(i, n, _, _). unat n - unat i)")
  show "wf (measure (\<lambda>(i :: 8 word, n :: 8 word, _ :: 8 word list, _ :: TaskProvider list).
              unat n - unat i))"
    by simp
next
  fix i n :: "8 word" and mcq :: "8 word list" and provs :: "TaskProvider list"
  assume lt: "i < n"
  then have "unat i < unat n"
    by (simp add: word_less_nat_alt)
  moreover have "unat n < 256"
    using unsigned_less [of n, where ?'a = nat] by simp
  ultimately have "unat (i + 1) = unat i + 1"
    by (simp add: unat_word_ariths)
  with \<open>unat i < unat n\<close>
  show "((i + 1, n, mcq, provs), (i, n, mcq, provs))
          \<in> measure (\<lambda>(i, n, _, _). unat n - unat i)"
    by simp
qed

declare build_pipelines.simps [simp del]

definition RunParallelTaskPipeline ::
  "8 word \<Rightarrow> 8 word list \<Rightarrow> TaskProvider list \<Rightarrow> failure + ParallelTaskPipeline" where
  "RunParallelTaskPipeline n maxConcurrentQuantities pipelineTaskProviders =
     (if n = 0 then Inl (Err ''invalid pipeline count'')
      else if length maxConcurrentQuantities \<noteq> unat n then
        Inl (Err ''invalid max concurrent quantities'')
      else if length pipelineTaskProviders \<noteq> unat n then
        Inl (Err ''invalid pipeline task providers'')
      else
        (case build_pipelines 0 n maxConcurrentQuantities pipelineTaskProviders of
           Inl p \<Rightarrow> Inl (Panic p)
         | Inr tps \<Rightarrow>
             Inr \<lparr>pipelineCount = n,
                  pipelines = tps,
                  noOutput = False,
                  closed = False,
                  jobC = (\<lambda>_. []),
                  loops = (\<lambda>_. LoopSelect),
                  heap = [],
                  chans = 0,
                  runs = [],
                  panicked = None,
                  admitted = (\<lambda>_. []),
                  handled = (\<lambda>_. []),
                  received = []\<rparr>))"

subsection \<open>Close, NoOutput, OutputC\<close>

text \<open>\<^verbatim>\<open>close(p.closeC)\<close>: closing a closed channel panics.\<close>

definition Close :: "ParallelTaskPipeline \<Rightarrow> panic + ParallelTaskPipeline" where
  "Close p = (if closed p then Inl CloseOfClosedChannel else Inr (p\<lparr>closed := True\<rparr>))"

definition NoOutput :: "ParallelTaskPipeline \<Rightarrow> ParallelTaskPipeline" where
  "NoOutput p = p\<lparr>noOutput := True\<rparr>"

text \<open>
  \<^verbatim>\<open>OutputC\<close> returns nil (\<open>None\<close>) or the channel \<^verbatim>\<open>outputC\<close>, of which the model
  has one per controller.
\<close>

datatype output_chan = OutputChan

definition OutputC :: "ParallelTaskPipeline \<Rightarrow> output_chan option" where
  "OutputC p = (if noOutput p then None else Some OutputChan)"

subsection \<open>Sending a job into a stage: \<^verbatim>\<open>Job.do\<close> and \<^verbatim>\<open>PushJob\<close>\<close>

text \<open>
  The send \<^verbatim>\<open>j.tp.jobC <- j\<close> on the channel of stage \<open>k\<close>. It goes through when the
  buffer has room; with no room it goes through only when the stage's loop is blocked receiving
  on the empty channel (the only case for capacity 0), and then the loop has the job at once and
  enters its inner select. Otherwise the send blocks (\<open>None\<close>).
\<close>

definition send_jobC :: "nat \<Rightarrow> nat \<Rightarrow> ParallelTaskPipeline \<Rightarrow> ParallelTaskPipeline option" where
  "send_jobC k j s =
     (if length (jobC s k) < unat (jobC_cap (pipelines s ! k)) then
        Some (s\<lparr>jobC := (jobC s)(k := jobC s k @ [j])\<rparr>)
      else if jobC s k = [] \<and> loops s k = LoopSelect then
        Some (s\<lparr>loops := (loops s)(k := LoopWait j (FinishedC (heap s ! j)))\<rparr>)
      else None)"

text \<open>
  The two cases of the select in \<^verbatim>\<open>Job.do\<close>. When the send goes through,
  \<^verbatim>\<open>go j.run()\<close> starts a goroutine for the job.
\<close>

definition do_send :: "nat \<Rightarrow> ParallelTaskPipeline \<Rightarrow> ParallelTaskPipeline option" where
  "do_send j s =
     (let k = tp (heap s ! j) in
      case send_jobC k j s of
        None \<Rightarrow> None
      | Some s' \<Rightarrow>
          Some (s'\<lparr>runs := runs s' @ [(j, RunTask)],
                   admitted := (admitted s')(k := admitted s' k @ [(j, Input (heap s ! j))])\<rparr>))"

definition do_closed :: "ParallelTaskPipeline \<Rightarrow> ParallelTaskPipeline option" where
  "do_closed s = (if closed s then Some s else None)"

text \<open>
  \<^verbatim>\<open>PushJob\<close> up to its call of \<^verbatim>\<open>job.do()\<close>: it reads \<^verbatim>\<open>p.pipelines[0]\<close> and
  allocates the job with a channel made for it. The result is the job's address and the new
  state.
\<close>

definition PushJob_alloc ::
  "any \<Rightarrow> ParallelTaskPipeline \<Rightarrow> panic + (nat \<times> ParallelTaskPipeline)" where
  "PushJob_alloc input s =
     (if pipelines s = [] then Inl IndexOutOfRange
      else Inr (length (heap s),
                s\<lparr>heap := heap s @
                     [\<lparr>Input = input, Output = ANil, Ok = False, FinishedC = chans s, tp = 0\<rparr>],
                  chans := chans s + 1\<rparr>))"

subsection \<open>The goroutine \<^verbatim>\<open>Job.run\<close>\<close>

text \<open>
  \<^verbatim>\<open>j.Output, j.Ok = j.tp.jobTask(j.Input)\<close>, after which goroutine \<open>g\<close> enters its
  select. A panic of the task ends the process.
\<close>

definition run_task :: "nat \<Rightarrow> nat \<Rightarrow> ParallelTaskPipeline \<Rightarrow> ParallelTaskPipeline" where
  "run_task g j s =
     (let job = heap s ! j in
      case jobTask (pipelines s ! tp job) (Input job) of
        Inl p \<Rightarrow> s\<lparr>panicked := Some p\<rparr>
      | Inr (out, ok) \<Rightarrow>
          s\<lparr>heap := (heap s)[j := job\<lparr>Output := out, Ok := ok\<rparr>],
            runs := (runs s)[g := (j, RunSelect (FinishedC job))]\<rparr>)"

subsection \<open>The goroutine \<^verbatim>\<open>taskPipeline.loop\<close>\<close>

definition set_loop :: "nat \<Rightarrow> loop_pc \<Rightarrow> ParallelTaskPipeline \<Rightarrow> ParallelTaskPipeline" where
  "set_loop i pc s = s\<lparr>loops := (loops s)(i := pc)\<rparr>"

text \<open>The loop of stage \<open>i\<close> is done with job \<open>j\<close> and is back at its outer select.\<close>

definition loop_continue :: "nat \<Rightarrow> nat \<Rightarrow> ParallelTaskPipeline \<Rightarrow> ParallelTaskPipeline" where
  "loop_continue i j s =
     s\<lparr>loops := (loops s)(i := LoopSelect), handled := (handled s)(i := handled s i @ [j])\<rparr>"

text \<open>
  Lines 77 to 89 of the source: what the loop of stage \<open>i\<close> does between receiving from
  the \<^verbatim>\<open>FinishedC\<close> of job \<open>j\<close> and its next blocking operation.
\<close>

definition loop_finished :: "nat \<Rightarrow> nat \<Rightarrow> ParallelTaskPipeline \<Rightarrow> ParallelTaskPipeline" where
  "loop_finished i j s =
     (let this = pipelines s ! i; job = heap s ! j in
      if pipelineCount s = index this + 1 then
        (if \<not> noOutput s then set_loop i (LoopOutput j) s else loop_continue i j s)
      else if \<not> Ok job then loop_continue i j s
      else
        (let next = unat (index this + 1) in
         if next < length (pipelines s) then
           set_loop i (LoopDo j)
             (s\<lparr>heap := (heap s)[j := job\<lparr>Input := Output job, Output := ANil,
                                             FinishedC := chans s, tp := next\<rparr>],
                chans := chans s + 1\<rparr>)
         else s\<lparr>panicked := Some IndexOutOfRange\<rparr>))"

subsection \<open>Steps of the system\<close>

text \<open>
  One event is one communication or one call: a caller's \<^verbatim>\<open>PushJob\<close> whose select takes
  the send (\<open>EPushJob\<close>) or the closed \<^verbatim>\<open>closeC\<close> (\<open>EPushJobClosed\<close>); a caller's
  \<^verbatim>\<open>Close\<close> and \<^verbatim>\<open>NoOutput\<close>; the loop of stage \<open>i\<close> receiving a job from its
  buffer (\<open>ELoopRecv\<close>), taking \<^verbatim>\<open>closeC\<close> in its outer or inner select
  (\<open>ELoopClosed\<close>), receiving on \<^verbatim>\<open>FinishedC\<close> what goroutine \<open>g\<close> sends
  (\<open>EFinished g i\<close>), in \<^verbatim>\<open>job.do()\<close> sending the job on (\<open>EDoSend\<close>) or taking
  \<^verbatim>\<open>closeC\<close> (\<open>EDoClosed\<close>), and handing its output to a consumer receiving from
  \<^verbatim>\<open>outputC\<close> (\<open>EOutput\<close>); goroutine \<open>g\<close> calling its task (\<open>ERun\<close>) or taking
  \<^verbatim>\<open>closeC\<close> in its select (\<open>ERunClosed\<close>). An event that is not enabled in a state
  gives \<open>None\<close>: an operation that is still blocked has not happened yet. What a goroutine
  does between two blocking operations is part of the step that ends the first one; of what
  other goroutines write it reads only \<^verbatim>\<open>noOutput\<close>, once. After a panic nothing is
  enabled.
\<close>

datatype event =
    EPushJob any
  | EPushJobClosed any
  | EClose
  | ENoOutput
  | ELoopRecv nat
  | ELoopClosed nat
  | EFinished nat nat
  | EDoSend nat
  | EDoClosed nat
  | EOutput nat
  | ERun nat
  | ERunClosed nat

fun step_event :: "event \<Rightarrow> ParallelTaskPipeline \<Rightarrow> ParallelTaskPipeline option" where
  "step_event (EPushJob input) s =
     (case PushJob_alloc input s of
        Inl p \<Rightarrow> Some (s\<lparr>panicked := Some p\<rparr>)
      | Inr (j, s') \<Rightarrow> do_send j s')"
| "step_event (EPushJobClosed input) s =
     (case PushJob_alloc input s of
        Inl p \<Rightarrow> Some (s\<lparr>panicked := Some p\<rparr>)
      | Inr (j, s') \<Rightarrow> do_closed s')"
| "step_event EClose s =
     (case Close s of Inl p \<Rightarrow> Some (s\<lparr>panicked := Some p\<rparr>) | Inr s' \<Rightarrow> Some s')"
| "step_event ENoOutput s = Some (NoOutput s)"
| "step_event (ELoopRecv i) s =
     (if i < length (pipelines s) \<and> loops s i = LoopSelect then
        (case jobC s i of
           [] \<Rightarrow> None
         | j # q \<Rightarrow>
             Some (s\<lparr>jobC := (jobC s)(i := q),
                     loops := (loops s)(i := LoopWait j (FinishedC (heap s ! j)))\<rparr>))
      else None)"
| "step_event (ELoopClosed i) s =
     (if i < length (pipelines s) \<and> closed s then
        (case loops s i of
           LoopSelect \<Rightarrow> Some (set_loop i LoopReturned s)
         | LoopWait j c \<Rightarrow> Some (set_loop i LoopReturned s)
         | _ \<Rightarrow> None)
      else None)"
| "step_event (EFinished g i) s =
     (if i < length (pipelines s) \<and> g < length (runs s) then
        (case (runs s ! g, loops s i) of
           ((j', RunSelect c'), LoopWait j c) \<Rightarrow>
             (if c' = c then
                Some (loop_finished i j (s\<lparr>runs := (runs s)[g := (j', RunExited)]\<rparr>))
              else None)
         | _ \<Rightarrow> None)
      else None)"
| "step_event (EDoSend i) s =
     (if i < length (pipelines s) then
        (case loops s i of
           LoopDo j \<Rightarrow>
             (case do_send j s of None \<Rightarrow> None | Some s' \<Rightarrow> Some (loop_continue i j s'))
         | _ \<Rightarrow> None)
      else None)"
| "step_event (EDoClosed i) s =
     (if i < length (pipelines s) then
        (case loops s i of
           LoopDo j \<Rightarrow>
             (case do_closed s of None \<Rightarrow> None | Some s' \<Rightarrow> Some (loop_continue i j s'))
         | _ \<Rightarrow> None)
      else None)"
| "step_event (EOutput i) s =
     (if i < length (pipelines s) then
        (case loops s i of
           LoopOutput j \<Rightarrow>
             Some (loop_continue i j
                     (s\<lparr>received := received s @ [(j, Output (heap s ! j))]\<rparr>))
         | _ \<Rightarrow> None)
      else None)"
| "step_event (ERun g) s =
     (if g < length (runs s) then
        (case runs s ! g of
           (j, RunTask) \<Rightarrow> Some (run_task g j s)
         | _ \<Rightarrow> None)
      else None)"
| "step_event (ERunClosed g) s =
     (if g < length (runs s) \<and> closed s then
        (case runs s ! g of
           (j, RunSelect c) \<Rightarrow> Some (s\<lparr>runs := (runs s)[g := (j, RunExited)]\<rparr>)
         | _ \<Rightarrow> None)
      else None)"

definition step :: "event \<Rightarrow> ParallelTaskPipeline \<Rightarrow> ParallelTaskPipeline option" where
  "step e s = (if panicked s = None then step_event e s else None)"

text \<open>Running a schedule: the events in order, \<open>None\<close> if one of them is not enabled.\<close>

fun exec :: "event list \<Rightarrow> ParallelTaskPipeline \<Rightarrow> ParallelTaskPipeline option" where
  "exec [] s = Some s"
| "exec (e # es) s = (case step e s of None \<Rightarrow> None | Some s' \<Rightarrow> exec es s')"

section \<open>Specification\<close>

subsection \<open>What the statements speak of\<close>

text \<open>
  The stage \<^verbatim>\<open>RunParallelTaskPipeline\<close> builds at position \<open>k\<close> when the provider at
  that position is not nil.
\<close>

definition stage_of :: "8 word list \<Rightarrow> TaskProvider list \<Rightarrow> nat \<Rightarrow> taskPipeline" where
  "stage_of mcq provs k =
     \<lparr>index = of_nat k, jobC_cap = mcq ! k, jobTask = projr (provider_Task (provs ! k))\<rparr>"

text \<open>
  \<open>T\<^sub>N(\<dots>T\<^sub>1(x))\<close>: the output of each task is the input of the next, whatever the tasks
  say about continuing; there is no value when a task panics. \<open>all_continue\<close> says that each
  of the tasks, on the input it gets in this chain, returns and says continue.
\<close>

fun compose_tasks :: "Task list \<Rightarrow> any \<Rightarrow> any option" where
  "compose_tasks [] x = Some x"
| "compose_tasks (t # ts) x =
     (case t x of Inl p \<Rightarrow> None | Inr (y, ok) \<Rightarrow> compose_tasks ts y)"

fun all_continue :: "Task list \<Rightarrow> any \<Rightarrow> bool" where
  "all_continue [] x = True"
| "all_continue (t # ts) x =
     (case t x of Inl p \<Rightarrow> False | Inr (y, ok) \<Rightarrow> ok \<and> all_continue ts y)"

text \<open>No loop is blocked in the send on \<^verbatim>\<open>outputC\<close>.\<close>

definition no_LoopOutput :: "ParallelTaskPipeline \<Rightarrow> bool" where
  "no_LoopOutput s \<longleftrightarrow> (\<forall>i j. loops s i \<noteq> LoopOutput j)"

text \<open>
  The completion channels some job, loop or \<^verbatim>\<open>run\<close> goroutine refers to.
\<close>

definition chans_in_use :: "ParallelTaskPipeline \<Rightarrow> nat set" where
  "chans_in_use s =
     FinishedC ` set (heap s) \<union> {c. \<exists>i j. loops s i = LoopWait j c} \<union>
     {c. \<exists>j. (j, RunSelect c) \<in> set (runs s)}"

text \<open>The histories of \<open>s'\<close> extend those of \<open>s\<close>.\<close>

definition extends :: "ParallelTaskPipeline \<Rightarrow> ParallelTaskPipeline \<Rightarrow> bool" where
  "extends s s' \<longleftrightarrow>
     (\<forall>i. prefix (handled s i) (handled s' i) \<and> prefix (admitted s i) (admitted s' i)) \<and>
     prefix (received s) (received s')"

subsection \<open>Invariants of the reachable states\<close>

text \<open>
  The job a loop has taken from its \<^verbatim>\<open>jobC\<close> and is not yet done with. A stage is in
  first-in first-out order when the jobs it is done with are a prefix of the jobs sent to it,
  and, while its loop runs, the rest are the job the loop holds followed by the buffer.
\<close>

fun holding :: "loop_pc \<Rightarrow> nat list" where
  "holding LoopSelect = []"
| "holding (LoopWait j c) = [j]"
| "holding (LoopOutput j) = [j]"
| "holding (LoopDo j) = [j]"
| "holding LoopReturned = []"

definition fifo_stage :: "ParallelTaskPipeline \<Rightarrow> nat \<Rightarrow> bool" where
  "fifo_stage s i \<longleftrightarrow>
     prefix (handled s i) (map fst (admitted s i)) \<and>
     (loops s i \<noteq> LoopReturned \<longrightarrow>
        map fst (admitted s i) = handled s i @ holding (loops s i) @ jobC s i)"

definition fifo_inv :: "ParallelTaskPipeline \<Rightarrow> bool" where
  "fifo_inv s \<longleftrightarrow> (\<forall>i. fifo_stage s i)"

text \<open>
  What \<^verbatim>\<open>RunParallelTaskPipeline\<close> establishes of the controller's fixed fields.
\<close>

definition wf_static :: "ParallelTaskPipeline \<Rightarrow> bool" where
  "wf_static s \<longleftrightarrow>
     pipelineCount s \<noteq> 0 \<and> length (pipelines s) = unat (pipelineCount s) \<and>
     (\<forall>i < length (pipelines s). index (pipelines s ! i) = of_nat i)"

text \<open>
  Ownership of jobs. The jobs of stage \<open>k\<close> are the one the previous stage's loop is sending
  to it inside \<^verbatim>\<open>job.do()\<close>, the one its own loop waits for or delivers, and those in its
  buffer. No job occurs twice among them, and each is an allocated job whose \<^verbatim>\<open>tp\<close> is
  stage \<open>k\<close>.
\<close>

fun waiting :: "loop_pc \<Rightarrow> nat list" where
  "waiting (LoopWait j c) = [j]"
| "waiting (LoopOutput j) = [j]"
| "waiting _ = []"

fun forwarding :: "loop_pc \<Rightarrow> nat list" where
  "forwarding (LoopDo j) = [j]"
| "forwarding _ = []"

definition members :: "ParallelTaskPipeline \<Rightarrow> nat \<Rightarrow> nat list" where
  "members s k =
     (case k of 0 \<Rightarrow> [] | Suc i \<Rightarrow> forwarding (loops s i)) @ waiting (loops s k) @ jobC s k"

definition own_stage :: "ParallelTaskPipeline \<Rightarrow> nat \<Rightarrow> bool" where
  "own_stage s k \<longleftrightarrow>
     distinct (members s k) \<and>
     (\<forall>j \<in> set (members s k). j < length (heap s) \<and> tp (heap s ! j) = k)"

definition own_inv :: "ParallelTaskPipeline \<Rightarrow> bool" where
  "own_inv s \<longleftrightarrow> (\<forall>k. own_stage s k)"

text \<open>
  Completion channels: every job's \<^verbatim>\<open>FinishedC\<close> was made before (its number is below
  \<open>chans\<close>), different jobs have different channels, and a loop in its inner select waits on
  the channel of the job it holds.
\<close>

definition chan_bound :: "ParallelTaskPipeline \<Rightarrow> bool" where
  "chan_bound s \<longleftrightarrow> (\<forall>a < length (heap s). FinishedC (heap s ! a) < chans s)"

definition chan_inj :: "ParallelTaskPipeline \<Rightarrow> bool" where
  "chan_inj s \<longleftrightarrow>
     (\<forall>a b. a < length (heap s) \<longrightarrow> b < length (heap s) \<longrightarrow>
        FinishedC (heap s ! a) = FinishedC (heap s ! b) \<longrightarrow> a = b)"

definition chan_wait :: "ParallelTaskPipeline \<Rightarrow> bool" where
  "chan_wait s \<longleftrightarrow> (\<forall>i j c. loops s i = LoopWait j c \<longrightarrow> c = FinishedC (heap s ! j))"

text \<open>
  The \<^verbatim>\<open>run\<close> goroutines: each one's job is allocated, and a channel one of them sends
  on was made before.
\<close>

definition run_ptr :: "ParallelTaskPipeline \<Rightarrow> bool" where
  "run_ptr s \<longleftrightarrow> (\<forall>g < length (runs s). fst (runs s ! g) < length (heap s))"

definition run_chan :: "ParallelTaskPipeline \<Rightarrow> bool" where
  "run_chan s \<longleftrightarrow>
     (\<forall>g j c. g < length (runs s) \<longrightarrow> runs s ! g = (j, RunSelect c) \<longrightarrow> c < chans s)"

text \<open>The invariants on jobs and channels together.\<close>

definition heap_inv :: "ParallelTaskPipeline \<Rightarrow> bool" where
  "heap_inv s \<longleftrightarrow>
     wf_static s \<and> own_inv s \<and> chan_bound s \<and> chan_inj s \<and> chan_wait s \<and>
     run_ptr s \<and> run_chan s"

text \<open>
  The \<^verbatim>\<open>run\<close> goroutines that have not exited: no two of them are for the same job; a
  job whose loop has received its completion has none; and one that has called its task and
  offers the completion sends on its job's current channel, the job holding the results of the
  task of the job's stage on the job's input.
\<close>

definition run_live :: "nat \<times> run_pc \<Rightarrow> bool" where
  "run_live r \<longleftrightarrow> snd r \<noteq> RunExited"

definition run_distinct :: "ParallelTaskPipeline \<Rightarrow> bool" where
  "run_distinct s \<longleftrightarrow>
     (\<forall>g h. g < length (runs s) \<longrightarrow> h < length (runs s) \<longrightarrow>
        run_live (runs s ! g) \<longrightarrow> run_live (runs s ! h) \<longrightarrow>
        fst (runs s ! g) = fst (runs s ! h) \<longrightarrow> g = h)"

definition run_free :: "ParallelTaskPipeline \<Rightarrow> bool" where
  "run_free s \<longleftrightarrow>
     (\<forall>i j g. loops s i = LoopOutput j \<or> loops s i = LoopDo j \<longrightarrow>
        g < length (runs s) \<longrightarrow> fst (runs s ! g) = j \<longrightarrow> \<not> run_live (runs s ! g))"

definition run_done :: "ParallelTaskPipeline \<Rightarrow> bool" where
  "run_done s \<longleftrightarrow>
     (\<forall>g j c. g < length (runs s) \<longrightarrow> runs s ! g = (j, RunSelect c) \<longrightarrow>
        c = FinishedC (heap s ! j) \<and>
        jobTask (pipelines s ! tp (heap s ! j)) (Input (heap s ! j))
          = Inr (Output (heap s ! j), Ok (heap s ! j)))"

text \<open>The invariants on jobs, channels and goroutines together.\<close>

definition run_inv :: "ParallelTaskPipeline \<Rightarrow> bool" where
  "run_inv s \<longleftrightarrow> heap_inv s \<and> run_distinct s \<and> run_free s \<and> run_done s"

text \<open>
  Values. A job a stage's loop waits for, delivers or has in its buffer has the input it was
  admitted with; a job being sent on has as input the output of this stage's task on the input
  it was admitted with, and the task said continue; a job is delivered only by the last stage,
  with the output of that stage's task on its input.
\<close>

definition val_stage :: "ParallelTaskPipeline \<Rightarrow> bool" where
  "val_stage s \<longleftrightarrow>
     (\<forall>k j. j \<in> set (waiting (loops s k) @ jobC s k) \<longrightarrow>
        (j, Input (heap s ! j)) \<in> set (admitted s k))"

definition val_do :: "ParallelTaskPipeline \<Rightarrow> bool" where
  "val_do s \<longleftrightarrow>
     (\<forall>i j. loops s i = LoopDo j \<longrightarrow>
        (\<exists>x. (j, x) \<in> set (admitted s i) \<and>
             jobTask (pipelines s ! i) x = Inr (Input (heap s ! j), True)))"

definition val_out :: "ParallelTaskPipeline \<Rightarrow> bool" where
  "val_out s \<longleftrightarrow>
     (\<forall>i j. loops s i = LoopOutput j \<longrightarrow>
        Suc i = length (pipelines s) \<and>
        (\<exists>b. jobTask (pipelines s ! i) (Input (heap s ! j)) = Inr (Output (heap s ! j), b)))"

text \<open>
  Histories. Every job admitted to stage \<open>k + 1\<close> was admitted to stage \<open>k\<close>, whose task
  mapped its input there to its input here and said continue; every value received came from
  the last stage's task on the job's input there. The jobs admitted to stage \<open>k + 1\<close> are, in
  order, among those stage \<open>k\<close> is done with, and the jobs whose output was received are, in
  order, among those the last stage is done with. The jobs admitted to the first stage are
  different allocated jobs.
\<close>

definition val_chain :: "ParallelTaskPipeline \<Rightarrow> bool" where
  "val_chain s \<longleftrightarrow>
     (\<forall>k j x. (j, x) \<in> set (admitted s (Suc k)) \<longrightarrow>
        (\<exists>x'. (j, x') \<in> set (admitted s k) \<and> jobTask (pipelines s ! k) x' = Inr (x, True)))"

definition val_recv :: "ParallelTaskPipeline \<Rightarrow> bool" where
  "val_recv s \<longleftrightarrow>
     (\<forall>j v. (j, v) \<in> set (received s) \<longrightarrow>
        (\<exists>x b. (j, x) \<in> set (admitted s (length (pipelines s) - 1)) \<and>
               jobTask (pipelines s ! (length (pipelines s) - 1)) x = Inr (v, b)))"

definition ord_chain :: "ParallelTaskPipeline \<Rightarrow> bool" where
  "ord_chain s \<longleftrightarrow> (\<forall>k. subseq (map fst (admitted s (Suc k))) (handled s k))"

definition ord_recv :: "ParallelTaskPipeline \<Rightarrow> bool" where
  "ord_recv s \<longleftrightarrow> subseq (map fst (received s)) (handled s (length (pipelines s) - 1))"

definition adm_first :: "ParallelTaskPipeline \<Rightarrow> bool" where
  "adm_first s \<longleftrightarrow>
     distinct (map fst (admitted s 0)) \<and> (\<forall>j \<in> fst ` set (admitted s 0). j < length (heap s))"

text \<open>All invariants together.\<close>

definition pipe_inv :: "ParallelTaskPipeline \<Rightarrow> bool" where
  "pipe_inv s \<longleftrightarrow>
     run_inv s \<and> fifo_inv s \<and> val_stage s \<and> val_do s \<and> val_out s \<and> val_chain s \<and>
     val_recv s \<and> ord_chain s \<and> ord_recv s \<and> adm_first s"

subsection \<open>A single job on its way\<close>

text \<open>
  States of a run with a single job, relative to the freshly built controller \<open>p\<close>: the
  job, with input \<open>x\<close>, has been sent to stage \<open>i\<close> and its goroutine has not called the
  task yet (\<open>job_at\<close>); the task has returned \<open>y\<close> and \<open>ok\<close>, the goroutine offers the
  completion and the loop of stage \<open>i\<close> waits for it (\<open>job_done\<close>). Later stages are idle
  and nothing has been received.
\<close>

definition job_at ::
  "ParallelTaskPipeline \<Rightarrow> nat \<Rightarrow> any \<Rightarrow> ParallelTaskPipeline \<Rightarrow> bool" where
  "job_at p i x s \<longleftrightarrow>
     pipelines s = pipelines p \<and> pipelineCount s = pipelineCount p \<and> panicked s = None \<and>
     \<not> noOutput s \<and> received s = [] \<and>
     (\<exists>out ok. heap s = [\<lparr>Input = x, Output = out, Ok = ok, FinishedC = i, tp = i\<rparr>]) \<and>
     chans s = Suc i \<and> length (runs s) = Suc i \<and> runs s ! i = (0, RunTask) \<and>
     (jobC s i = [0] \<and> loops s i = LoopSelect \<or> jobC s i = [] \<and> loops s i = LoopWait 0 i) \<and>
     (\<forall>k > i. jobC s k = [] \<and> loops s k = LoopSelect)"

definition job_done ::
  "ParallelTaskPipeline \<Rightarrow> nat \<Rightarrow> any \<Rightarrow> any \<Rightarrow> bool \<Rightarrow> ParallelTaskPipeline \<Rightarrow> bool" where
  "job_done p i x y ok s \<longleftrightarrow>
     pipelines s = pipelines p \<and> pipelineCount s = pipelineCount p \<and> panicked s = None \<and>
     \<not> noOutput s \<and> received s = [] \<and>
     heap s = [\<lparr>Input = x, Output = y, Ok = ok, FinishedC = i, tp = i\<rparr>] \<and>
     chans s = Suc i \<and> length (runs s) = Suc i \<and> runs s ! i = (0, RunSelect i) \<and>
     jobC s i = [] \<and> loops s i = LoopWait 0 i \<and>
     (\<forall>k > i. jobC s k = [] \<and> loops s k = LoopSelect)"

subsection \<open>Example pipelines and schedules\<close>

text \<open>
  The task of the repository's test: append \<^verbatim>\<open>" processed"\<close> to a string. Its provider is
  the generic adapter at \<^verbatim>\<open>[string, string]\<close>. \<open>demo1\<close> has this task as its only stage,
  \<open>demo3\<close> is the pipeline of the test: three such stages with limits 3, 2 and 3.
\<close>

definition append_processed :: "any \<Rightarrow> any \<times> bool" where
  "append_processed v =
     (case v of AString s \<Rightarrow> (AString (s @ '' processed''), True) | _ \<Rightarrow> (ANil, False))"

definition demo_provider :: TaskProvider where
  "demo_provider = GenericTaskProvider (Concrete TString) append_processed"

definition demo1 :: ParallelTaskPipeline where
  "demo1 = projr (RunParallelTaskPipeline 1 [1] [demo_provider])"

definition demo3 :: ParallelTaskPipeline where
  "demo3 = projr (RunParallelTaskPipeline 3 [3, 2, 3]
                    [demo_provider, demo_provider, demo_provider])"

text \<open>
  A task that returns its input with \<^verbatim>\<open>ok = false\<close>, and the pipelines with this task
  as the only stage and as the first of two stages.
\<close>

definition reject :: "any \<Rightarrow> any \<times> bool" where
  "reject v = (v, False)"

definition reject_provider :: TaskProvider where
  "reject_provider = GenericTaskProvider (Concrete TString) reject"

definition demo_reject :: ParallelTaskPipeline where
  "demo_reject = projr (RunParallelTaskPipeline 1 [1] [reject_provider])"

definition demo_reject_first :: ParallelTaskPipeline where
  "demo_reject_first = projr (RunParallelTaskPipeline 2 [1, 1] [reject_provider, demo_provider])"

text \<open>
  A schedule on the three-stage example: jobs A and B are pushed, B's task runs first and
  its goroutine offers its completion, then the loop of stage 0 takes A from the buffer.
\<close>

definition sched_B_first :: "event list" where
  "sched_B_first = [EPushJob (AString ''A''), EPushJob (AString ''B''), ERun 1, ELoopRecv 0]"

text \<open>
  A schedule on the three-stage example that takes jobs A and B through all stages, B's
  task running before A's at every stage, and delivers both outputs.
\<close>

definition sched_two_jobs :: "event list" where
  "sched_two_jobs =
     [EPushJob (AString ''A''), EPushJob (AString ''B''), ERun 1, ERun 0,
      ELoopRecv 0, EFinished 0 0, EDoSend 0, ELoopRecv 0, EFinished 1 0, EDoSend 0,
      ERun 3, ERun 2,
      ELoopRecv 1, EFinished 2 1, EDoSend 1, ELoopRecv 1, EFinished 3 1, EDoSend 1,
      ERun 5, ERun 4,
      ELoopRecv 2, EFinished 4 2, EOutput 2, ELoopRecv 2, EFinished 5 2, EOutput 2]"

text \<open>
  A schedule on the one-stage example: a job is pushed, its task runs, the loop takes the job
  and its completion and so reaches the send on \<^verbatim>\<open>outputC\<close>; then \<^verbatim>\<open>Close\<close> is
  called.
\<close>

definition sched_output_then_Close :: "event list" where
  "sched_output_then_Close =
     [EPushJob (AString ''job1''), ERun 0, ELoopRecv 0, EFinished 0 0, EClose]"

text \<open>
  A schedule on the three-stage example: a job goes through the stages until the last
  stage's loop is at the send on \<^verbatim>\<open>outputC\<close>; then \<^verbatim>\<open>Close\<close> is called and the loops
  of the first two stages take \<^verbatim>\<open>closeC\<close> and return.
\<close>

definition sched_Close_observed :: "event list" where
  "sched_Close_observed =
     [EPushJob (AString ''A''), ERun 0, ELoopRecv 0, EFinished 0 0, EDoSend 0,
      ERun 1, ELoopRecv 1, EFinished 1 1, EDoSend 1,
      ERun 2, ELoopRecv 2, EFinished 2 2,
      EClose, ELoopClosed 0, ELoopClosed 1]"

section \<open>Verification\<close>

subsection \<open>Construction\<close>

lemma unat_u8_bound: "unat (w :: 8 word) < 256"
  using unsigned_less [of w, where ?'a = nat] by simp

lemma unat_u8_succ: "(i :: 8 word) < n \<Longrightarrow> unat (i + 1) = Suc (unat i)"
proof -
  assume "i < n"
  then have "unat i < unat n" by (simp add: word_less_nat_alt)
  with unat_u8_bound [of n] show ?thesis by (simp add: unat_word_ariths)
qed

lemma provider_Task_Inl:
  "provider_Task pr = Inl e \<longleftrightarrow> pr = NilTaskProvider \<and> e = NilDereference"
  by (cases pr) auto

lemma provider_Task_projr:
  "pr \<noteq> NilTaskProvider \<Longrightarrow> provider_Task pr = Inr (projr (provider_Task pr))"
  by (cases pr) auto

lemma build_pipelines_eq:
  "unat n \<le> length mcq \<Longrightarrow> unat n \<le> length provs \<Longrightarrow>
   build_pipelines i n mcq provs =
     (if \<exists>k. unat i \<le> k \<and> k < unat n \<and> provs ! k = NilTaskProvider
      then Inl NilDereference
      else Inr (map (stage_of mcq provs) [unat i ..< unat n]))"
proof (induction i n mcq provs rule: build_pipelines.induct)
  case (1 i n mcq provs)
  show ?case
  proof (cases "i < n")
    case True
    then have lt: "unat i < unat n" by (simp add: word_less_nat_alt)
    have suc: "unat (i + 1) = Suc (unat i)" using True by (rule unat_u8_succ)
    have rng: "unat i < length mcq \<and> unat i < length provs"
      using lt "1.prems" by simp
    have upt: "[unat i ..< unat n] = unat i # [Suc (unat i) ..< unat n]"
      using lt by (simp add: upt_conv_Cons)
    show ?thesis
    proof (cases "provs ! unat i = NilTaskProvider")
      case nil: True
      then have "\<exists>k. unat i \<le> k \<and> k < unat n \<and> provs ! k = NilTaskProvider"
        using lt by blast
      then show ?thesis
        using True rng nil by (subst build_pipelines.simps) simp
    next
      case impl: False
      then have t: "provider_Task (provs ! unat i) = Inr (projr (provider_Task (provs ! unat i)))"
        by (rule provider_Task_projr)
      have ih: "build_pipelines (i + 1) n mcq provs =
                  (if \<exists>k. Suc (unat i) \<le> k \<and> k < unat n \<and> provs ! k = NilTaskProvider
                   then Inl NilDereference
                   else Inr (map (stage_of mcq provs) [Suc (unat i) ..< unat n]))"
        using "1.IH" [OF True rng t "1.prems"] unfolding suc .
      have ex: "(\<exists>k. unat i \<le> k \<and> k < unat n \<and> provs ! k = NilTaskProvider) \<longleftrightarrow>
                (\<exists>k. Suc (unat i) \<le> k \<and> k < unat n \<and> provs ! k = NilTaskProvider)"
        using impl by (metis Suc_leI le_neq_implies_less Suc_leD)
      have st: "stage_of mcq provs (unat i) =
                  \<lparr>index = i, jobC_cap = mcq ! unat i,
                   jobTask = projr (provider_Task (provs ! unat i))\<rparr>"
        by (simp add: stage_of_def)
      have b: "build_pipelines i n mcq provs =
              (case build_pipelines (i + 1) n mcq provs of
                 Inl p \<Rightarrow> Inl p
               | Inr tps \<Rightarrow> Inr (stage_of mcq provs (unat i) # tps))"
        using True rng by (subst build_pipelines.simps, subst t, subst st) simp
      show ?thesis
      proof (cases "\<exists>k. Suc (unat i) \<le> k \<and> k < unat n \<and> provs ! k = NilTaskProvider")
        case later: True
        from later ih have "build_pipelines (i + 1) n mcq provs = Inl NilDereference"
          by (simp only: if_True)
        with b have "build_pipelines i n mcq provs = Inl NilDereference"
          by (simp only: sum.case)
        moreover have "\<exists>k. unat i \<le> k \<and> k < unat n \<and> provs ! k = NilTaskProvider"
          using later ex by (rule iffD2 [rotated])
        ultimately show ?thesis
          by (simp only: if_True)
      next
        case none: False
        from none ih have "build_pipelines (i + 1) n mcq provs
            = Inr (map (stage_of mcq provs) [Suc (unat i) ..< unat n])"
          by (simp only: if_False)
        with b have "build_pipelines i n mcq provs
            = Inr (map (stage_of mcq provs) [unat i ..< unat n])"
          by (simp only: sum.case upt list.map)
        moreover have "\<not> (\<exists>k. unat i \<le> k \<and> k < unat n \<and> provs ! k = NilTaskProvider)"
          using none ex by (simp only: not_False_eq_True)
        ultimately show ?thesis
          by (simp only: if_False)
      qed
    qed
  next
    case False
    then have "\<not> unat i < unat n" by (simp add: word_less_nat_alt)
    then show ?thesis using False
      by (subst build_pipelines.simps) simp
  qed
qed

lemma nil_provider_position:
  "length provs = m \<Longrightarrow>
   (\<exists>k. 0 \<le> k \<and> k < m \<and> provs ! k = NilTaskProvider) \<longleftrightarrow> NilTaskProvider \<in> set provs"
  by (auto simp: in_set_conv_nth)

lemma RunParallelTaskPipeline_ok:
  assumes "n \<noteq> 0" "length mcq = unat n" "length provs = unat n"
    and "NilTaskProvider \<notin> set provs"
  shows "RunParallelTaskPipeline n mcq provs =
     Inr \<lparr>pipelineCount = n,
                  pipelines = map (stage_of mcq provs) [0 ..< unat n],
                  noOutput = False,
                  closed = False,
                  jobC = (\<lambda>_. []),
                  loops = (\<lambda>_. LoopSelect),
                  heap = [],
                  chans = 0,
                  runs = [],
                  panicked = None,
                  admitted = (\<lambda>_. []),
                  handled = (\<lambda>_. []),
                  received = []\<rparr>"
  using assms build_pipelines_eq [of n mcq provs 0] nil_provider_position [of provs "unat n"]
  by (simp add: RunParallelTaskPipeline_def)

lemma RunParallelTaskPipeline_nil:
  assumes "n \<noteq> 0" "length mcq = unat n" "length provs = unat n"
    and "NilTaskProvider \<in> set provs"
  shows "RunParallelTaskPipeline n mcq provs = Inl (Panic NilDereference)"
  using assms build_pipelines_eq [of n mcq provs 0] nil_provider_position [of provs "unat n"]
  by (simp add: RunParallelTaskPipeline_def)

lemma RunParallelTaskPipeline_Inr:
  assumes "RunParallelTaskPipeline n mcq provs = Inr p"
  shows "n \<noteq> 0 \<and> length mcq = unat n \<and> length provs = unat n \<and> NilTaskProvider \<notin> set provs"
proof -
  have ok: "n \<noteq> 0" "length mcq = unat n" "length provs = unat n"
    using assms by (auto simp: RunParallelTaskPipeline_def split: if_splits)
  have "NilTaskProvider \<notin> set provs"
    using RunParallelTaskPipeline_nil [OF ok] assms by auto
  with ok show ?thesis by simp
qed

lemma example_providers_not_nil [simp]:
  "NilTaskProvider \<noteq> demo_provider" "demo_provider \<noteq> NilTaskProvider"
  "NilTaskProvider \<noteq> reject_provider" "reject_provider \<noteq> NilTaskProvider"
  by (simp_all add: demo_provider_def reject_provider_def)

lemma demo1_eq:
  "demo1 = \<lparr>pipelineCount = 1,
             pipelines = [\<lparr>index = 0, jobC_cap = 1,
                           jobTask = projr (provider_Task demo_provider)\<rparr>],
             noOutput = False, closed = False, jobC = (\<lambda>_. []), loops = (\<lambda>_. LoopSelect),
             heap = [], chans = 0, runs = [], panicked = None, admitted = (\<lambda>_. []),
             handled = (\<lambda>_. []), received = []\<rparr>"
  using RunParallelTaskPipeline_ok [of 1 "[1]" "[demo_provider]"]
  by (simp add: demo1_def stage_of_def)




lemma send_jobC_unbuffered:
  "jobC_cap (pipelines s ! k) = 0 \<Longrightarrow> send_jobC k j s = Some s' \<Longrightarrow>
     loops s k = LoopSelect \<and> jobC s k = [] \<and> jobC s' = jobC s \<and>
     loops s' k = LoopWait j (FinishedC (heap s ! j))"
  by (auto simp: send_jobC_def split: if_splits)

text \<open>
  Claim C10. The stage count and the limits are \<^verbatim>\<open>uint8\<close>: a pipeline that was built has
  at most 255 stages and every \<^verbatim>\<open>jobC\<close> a capacity of at most 255. A limit of 0 is not
  rejected; the stage's \<^verbatim>\<open>jobC\<close> then has capacity 0, and a send on it goes through only
  to the stage's loop blocked in its receive, leaving nothing in a buffer.
\<close>

theorem uint8_limits_and_zero_capacity:
  assumes "RunParallelTaskPipeline n mcq provs = Inr p"
  shows "unat (pipelineCount p) \<le> 255 \<and> length (pipelines p) \<le> 255 \<and>
         (\<forall>i < length (pipelines p). unat (jobC_cap (pipelines p ! i)) \<le> 255) \<and>
         (\<forall>i < length (pipelines p). mcq ! i = 0 \<longrightarrow>
            jobC_cap (pipelines p ! i) = 0 \<and>
            (\<forall>s j s'. pipelines s = pipelines p \<longrightarrow> send_jobC i j s = Some s' \<longrightarrow>
               loops s i = LoopSelect \<and> jobC s i = [] \<and> jobC s' = jobC s \<and>
               loops s' i = LoopWait j (FinishedC (heap s ! j))))"
proof -
  from assms have ok: "n \<noteq> 0" "length mcq = unat n" "length provs = unat n"
      "NilTaskProvider \<notin> set provs"
    using RunParallelTaskPipeline_Inr by blast+
  have p: "pipelines p = map (stage_of mcq provs) [0 ..< unat n]" "pipelineCount p = n"
    using assms RunParallelTaskPipeline_ok [OF ok] by auto
  have b: "\<And>w :: 8 word. unat w \<le> 255"
    using unat_u8_bound by (simp add: less_Suc_eq_le [symmetric])
  have caps: "\<And>i. i < unat n \<Longrightarrow> jobC_cap (pipelines p ! i) = mcq ! i"
    by (simp add: p stage_of_def)
  have unb: "loops s i = LoopSelect \<and> jobC s i = [] \<and> jobC s' = jobC s \<and>
               loops s' i = LoopWait j (FinishedC (heap s ! j))"
    if "i < unat n" "mcq ! i = 0" "pipelines s = pipelines p" "send_jobC i j s = Some s'"
    for i s j s'
  proof -
    have "jobC_cap (pipelines s ! i) = 0"
      using that caps by simp
    then show ?thesis using that(4) by (rule send_jobC_unbuffered)
  qed
  have len: "length (pipelines p) = unat n"
    by (simp add: p)
  show ?thesis
    unfolding len p(2) using b caps unb by simp
qed

theorem uint8_limits_and_zero_capacity_witness:
  "RunParallelTaskPipeline 2 [0, 255] [demo_provider, demo_provider] \<noteq> Inl (Err ''invalid max concurrent quantities'') \<and>
   isl (RunParallelTaskPipeline 2 [0, 255] [demo_provider, demo_provider]) = False \<and>
   map (\<lambda>t. unat (jobC_cap t)) (pipelines (projr (RunParallelTaskPipeline 2 [0, 255] [demo_provider, demo_provider]))) = [0, 255]"
proof -
  have nn: "NilTaskProvider \<notin> set [demo_provider, demo_provider]"
    by (simp add: demo_provider_def)
  have u: "[0 ..< 2] = [0, Suc 0]"
    by (simp add: upt_conv_Cons)
  obtain p where p: "RunParallelTaskPipeline 2 [0, 255] [demo_provider, demo_provider] = Inr p"
    and q: "pipelines p = map (stage_of [0, 255] [demo_provider, demo_provider]) [0 ..< 2]"
    using RunParallelTaskPipeline_ok [of 2 "[0, 255]" "[demo_provider, demo_provider]"] nn
    by simp
  from uint8_limits_and_zero_capacity [OF p] show ?thesis
    using p q by (simp add: u stage_of_def)
qed

subsection \<open>Close\<close>

lemma exec_panicked: "panicked s \<noteq> None \<Longrightarrow> exec es s = Some s' \<Longrightarrow> s' = s"
  by (cases es) (auto simp: step_def)

lemma panicked_run_task: "panicked (run_task g j s) = None \<Longrightarrow> closed (run_task g j s) = closed s"
  by (auto simp: run_task_def Let_def split: sum.splits prod.splits)

lemma closed_send_jobC: "send_jobC k j s = Some s' \<Longrightarrow> closed s' = closed s"
  by (auto simp: send_jobC_def split: if_splits)

lemma closed_do_send: "do_send j s = Some s' \<Longrightarrow> closed s' = closed s"
  by (auto simp: do_send_def Let_def split: option.splits dest: closed_send_jobC)

lemma closed_loop_finished: "closed (loop_finished i j s) = closed s"
  by (simp add: loop_finished_def Let_def set_loop_def loop_continue_def)

lemma closed_step_other:
  "step e s = Some s' \<Longrightarrow> e \<noteq> EClose \<Longrightarrow> panicked s' = None \<Longrightarrow> closed s' = closed s"
  by (cases e)
     (auto simp: step_def PushJob_alloc_def do_closed_def NoOutput_def set_loop_def
         loop_continue_def closed_loop_finished
       split: if_splits sum.splits prod.splits list.splits loop_pc.splits run_pc.splits option.splits
       dest: closed_do_send panicked_run_task)

lemma closed_step_Close:
  "step EClose s = Some s' \<Longrightarrow> panicked s' = None \<Longrightarrow> \<not> closed s \<and> closed s'"
  by (auto simp: step_def Close_def split: if_splits)

lemma Close_count:
  "exec es s = Some s' \<Longrightarrow> panicked s' = None \<Longrightarrow>
     (closed s \<longrightarrow> EClose \<notin> set es \<and> closed s') \<and>
     (\<not> closed s \<longrightarrow> count_list es EClose \<le> 1 \<and> (closed s' \<longleftrightarrow> EClose \<in> set es))"
proof (induction es arbitrary: s)
  case Nil
  then show ?case by simp
next
  case (Cons e es)
  from Cons.prems obtain s1 where s1: "step e s = Some s1" and rest: "exec es s1 = Some s'"
    by (auto split: option.splits)
  have p1: "panicked s1 = None"
  proof (rule ccontr)
    assume "panicked s1 \<noteq> None"
    with rest have "s' = s1" using exec_panicked by blast
    with Cons.prems(2) \<open>panicked s1 \<noteq> None\<close> show False by simp
  qed
  note ih = Cons.IH [OF rest Cons.prems(2)]
  show ?case
  proof (cases "e = EClose")
    case True
    with s1 p1 have "\<not> closed s \<and> closed s1" using closed_step_Close by blast
    with ih True show ?thesis by (auto simp: count_list_0_iff)
  next
    case False
    with s1 p1 have "closed s1 = closed s" using closed_step_other by blast
    with ih False show ?thesis by auto
  qed
qed

text \<open>
  Claim C5, as amended. The first \<^verbatim>\<open>Close\<close> closes \<^verbatim>\<open>closeC\<close>. A \<^verbatim>\<open>Close\<close> on a
  controller that is already closed panics (close of a closed channel) and the process ends.
  Hence in every schedule from an open controller that ends without a panic there is at most
  one \<^verbatim>\<open>Close\<close>, and the controller is closed exactly when there was one.
\<close>

theorem Close_at_most_once:
  "(\<not> closed p \<longrightarrow> Close p = Inr (p\<lparr>closed := True\<rparr>)) \<and>
   (closed p \<longrightarrow> Close p = Inl CloseOfClosedChannel \<and>
      step EClose p = (if panicked p = None then Some (p\<lparr>panicked := Some CloseOfClosedChannel\<rparr>) else None)) \<and>
   (\<not> closed p \<longrightarrow> exec es p = Some s \<longrightarrow> panicked s = None \<longrightarrow>
      count_list es EClose \<le> 1 \<and> (closed s \<longleftrightarrow> EClose \<in> set es))"
  using Close_count [of es p s]
  by (auto simp: Close_def step_def)

theorem Close_at_most_once_witness:
  "\<not> closed demo1 \<and> Close demo1 = Inr (demo1\<lparr>closed := True\<rparr>) \<and>
   closed (demo1\<lparr>closed := True\<rparr>) \<and> Close (demo1\<lparr>closed := True\<rparr>) = Inl CloseOfClosedChannel \<and>
   map_option panicked (exec [EClose] demo1) = Some None \<and>
   map_option closed (exec [EClose] demo1) = Some True \<and>
   map_option panicked (exec [EClose, EClose] demo1) = Some (Some CloseOfClosedChannel)"
  using Close_at_most_once [of demo1 "[EClose]" "demo1\<lparr>closed := True\<rparr>"]
    Close_at_most_once [of "demo1\<lparr>closed := True\<rparr>" "[]" "demo1\<lparr>closed := True\<rparr>"]
  by (simp add: demo1_eq Close_def step_def)

text \<open>
  Claim C5 as stated fails: the second \<^verbatim>\<open>Close\<close> on the one-stage example pipeline
  panics.
\<close>

theorem Close_twice_counterexample:
  "isl (Close (projr (Close demo1)))"
  by (simp add: demo1_eq Close_def)

subsection \<open>The generic task adapter\<close>

text \<open>
  Claim C8, amended. The task of the generic adapter asserts its input to the type \<open>I\<close> and
  passes it to the typed function. When \<open>I\<close> is a concrete type, it returns what the typed
  function returns on an input of dynamic type \<open>I\<close> and panics instead of returning on every
  other input (nil included). When \<open>I\<close> is an interface type, it returns what the typed
  function returns on every input whose dynamic type implements \<open>I\<close>, although that dynamic
  type is not \<open>I\<close>, and panics on nil and on every input whose dynamic type does not
  implement \<open>I\<close>. When a \<^verbatim>\<open>run\<close> goroutine calls the task on an input on which it
  panics, the process panics, after which no event is enabled.
\<close>

theorem GenericTaskProvider_type_assertion:
  "provider_Task (GenericTaskProvider I g) = Inr (GenericTaskProvider_Task I g) \<and>
   (dynamic_type input = Some c \<longrightarrow>
      GenericTaskProvider_Task (Concrete c) g input = Inr (g input)) \<and>
   (dynamic_type input \<noteq> Some c \<longrightarrow>
      GenericTaskProvider_Task (Concrete c) g input = Inl InterfaceConversion) \<and>
   ((\<exists>t \<in> ts. dynamic_type input = Some t) \<longrightarrow>
      GenericTaskProvider_Task (Interface ts) g input = Inr (g input)) \<and>
   (\<not> (\<exists>t \<in> ts. dynamic_type input = Some t) \<longrightarrow>
      GenericTaskProvider_Task (Interface ts) g input = Inl InterfaceConversion) \<and>
   (GenericTaskProvider_Task I g input = Inl InterfaceConversion \<longrightarrow>
      g' < length (runs s) \<longrightarrow> runs s ! g' = (j, RunTask) \<longrightarrow> panicked s = None \<longrightarrow>
      jobTask (pipelines s ! tp (heap s ! j)) = GenericTaskProvider_Task I g \<longrightarrow>
      Input (heap s ! j) = input \<longrightarrow>
        step (ERun g') s = Some (s\<lparr>panicked := Some InterfaceConversion\<rparr>) \<and>
        (\<forall>e. step e (s\<lparr>panicked := Some InterfaceConversion\<rparr>) = None))"
proof -
  have "GenericTaskProvider_Task (Concrete c) g input =
          (if dynamic_type input = Some c then Inr (g input) else Inl InterfaceConversion)"
    by (cases "dynamic_type input") (auto simp: GenericTaskProvider_Task_def type_assert_def)
  moreover have "GenericTaskProvider_Task (Interface ts) g input =
          (if \<exists>t \<in> ts. dynamic_type input = Some t then Inr (g input)
           else Inl InterfaceConversion)"
    by (cases "dynamic_type input") (auto simp: GenericTaskProvider_Task_def type_assert_def)
  ultimately show ?thesis
    by (simp add: step_def run_task_def)
qed

theorem GenericTaskProvider_type_assertion_witness:
  "dynamic_type (AString ''job1'') = Some TString \<and>
   GenericTaskProvider_Task (Concrete TString) append_processed (AString ''job1'')
     = Inr (AString ''job1 processed'', True) \<and>
   dynamic_type (AInt 5) \<noteq> Some TString \<and>
   GenericTaskProvider_Task (Concrete TString) append_processed (AInt 5)
     = Inl InterfaceConversion \<and>
   map_option panicked (exec [EPushJob (AInt 5), ERun 0] demo1) = Some (Some InterfaceConversion) \<and>
   exec [EPushJob (AInt 5), ERun 0, ELoopRecv 0] demo1 = None \<and>
   GenericTaskProvider_Task (Interface UNIV) reject (AInt 5) = Inr (AInt 5, False) \<and>
   GenericTaskProvider_Task (Interface UNIV) reject ANil = Inl InterfaceConversion \<and>
   GenericTaskProvider_Task (Interface {}) reject (AInt 5) = Inl InterfaceConversion"
  using GenericTaskProvider_type_assertion [where c = TString and g = append_processed
      and input = "AString ''job1''"]
    GenericTaskProvider_type_assertion [where I = "Concrete TString" and c = TString
      and g = append_processed and input = "AInt 5" and g' = 0 and j = 0
      and s = "the (exec [EPushJob (AInt 5)] demo1)"]
    GenericTaskProvider_type_assertion [where ts = UNIV and g = reject and input = "AInt 5"]
    GenericTaskProvider_type_assertion [where ts = UNIV and g = reject and input = ANil]
    GenericTaskProvider_type_assertion [where ts = "{}" and g = reject and input = "AInt 5"]
  by (simp add: append_processed_def reject_def demo1_eq demo_provider_def step_def
        PushJob_alloc_def do_send_def send_jobC_def run_task_def)

text \<open>
  Claim C8 as stated fails in its "every input whose dynamic type is not \<open>I\<close>" for an
  interface type \<open>I\<close>: at \<^verbatim>\<open>GenericTaskProvider[any, any]\<close> the input \<^verbatim>\<open>5\<close> has
  the dynamic type \<^verbatim>\<open>int\<close>, which is not \<^verbatim>\<open>any\<close>, and the wrapped task returns.
\<close>

theorem GenericTaskProvider_interface_counterexample:
  "dynamic_type (AInt 5) = Some TInt \<and> Concrete TInt \<noteq> Interface UNIV \<and>
   GenericTaskProvider_Task (Interface UNIV) reject (AInt 5) = Inr (AInt 5, False)"
  by (simp add: GenericTaskProvider_Task_def type_assert_def reject_def)

subsection \<open>The steps, case by case\<close>

lemma step_cases [consumes 1, case_names PushBuf PushHand PushClosed Panic Close NoOutput
    LoopRecv LoopClosed FinOutput FinContinue FinDo FinPanic DoSendBuf DoSendHand DoClosed Output
    Run RunClosed]:
  assumes "step e s = Some s'"
  obtains
    (PushBuf) x where "e = EPushJob x" "pipelines s \<noteq> []"
      "length (jobC s 0) < unat (jobC_cap (pipelines s ! 0))"
      "s' = s\<lparr>heap := heap s @
                  [\<lparr>Input = x, Output = ANil, Ok = False, FinishedC = chans s, tp = 0\<rparr>],
               chans := Suc (chans s),
               jobC := (jobC s)(0 := jobC s 0 @ [length (heap s)]),
               runs := runs s @ [(length (heap s), RunTask)],
               admitted := (admitted s)(0 := admitted s 0 @ [(length (heap s), x)])\<rparr>"
  | (PushHand) x where "e = EPushJob x" "pipelines s \<noteq> []"
      "jobC s 0 = []" "loops s 0 = LoopSelect"
      "s' = s\<lparr>heap := heap s @
                  [\<lparr>Input = x, Output = ANil, Ok = False, FinishedC = chans s, tp = 0\<rparr>],
               chans := Suc (chans s),
               loops := (loops s)(0 := LoopWait (length (heap s)) (chans s)),
               runs := runs s @ [(length (heap s), RunTask)],
               admitted := (admitted s)(0 := admitted s 0 @ [(length (heap s), x)])\<rparr>"
  | (PushClosed) x where "e = EPushJobClosed x" "pipelines s \<noteq> []" "closed s"
      "s' = s\<lparr>heap := heap s @
                  [\<lparr>Input = x, Output = ANil, Ok = False, FinishedC = chans s, tp = 0\<rparr>],
               chans := Suc (chans s)\<rparr>"
  | (Panic) p where "s' = s\<lparr>panicked := Some p\<rparr>"
  | (Close) "e = EClose" "\<not> closed s" "s' = s\<lparr>closed := True\<rparr>"
  | (NoOutput) "e = ENoOutput" "s' = s\<lparr>noOutput := True\<rparr>"
  | (LoopRecv) i j q where "e = ELoopRecv i" "i < length (pipelines s)"
      "loops s i = LoopSelect" "jobC s i = j # q"
      "s' = s\<lparr>jobC := (jobC s)(i := q),
               loops := (loops s)(i := LoopWait j (FinishedC (heap s ! j)))\<rparr>"
  | (LoopClosed) i where "e = ELoopClosed i" "i < length (pipelines s)" "closed s"
      "loops s i = LoopSelect \<or> (\<exists>j c. loops s i = LoopWait j c)"
      "s' = s\<lparr>loops := (loops s)(i := LoopReturned)\<rparr>"
  | (FinOutput) g i j j' c where "e = EFinished g i" "i < length (pipelines s)"
      "g < length (runs s)" "runs s ! g = (j', RunSelect c)" "loops s i = LoopWait j c"
      "pipelineCount s = index (pipelines s ! i) + 1" "\<not> noOutput s"
      "s' = s\<lparr>runs := (runs s)[g := (j', RunExited)],
               loops := (loops s)(i := LoopOutput j)\<rparr>"
  | (FinContinue) g i j j' c where "e = EFinished g i" "i < length (pipelines s)"
      "g < length (runs s)" "runs s ! g = (j', RunSelect c)" "loops s i = LoopWait j c"
      "(pipelineCount s = index (pipelines s ! i) + 1 \<and> noOutput s) \<or>
       (pipelineCount s \<noteq> index (pipelines s ! i) + 1 \<and> \<not> Ok (heap s ! j))"
      "s' = s\<lparr>runs := (runs s)[g := (j', RunExited)],
               loops := (loops s)(i := LoopSelect),
               handled := (handled s)(i := handled s i @ [j])\<rparr>"
  | (FinDo) g i j j' c where "e = EFinished g i" "i < length (pipelines s)"
      "g < length (runs s)" "runs s ! g = (j', RunSelect c)" "loops s i = LoopWait j c"
      "pipelineCount s \<noteq> index (pipelines s ! i) + 1" "Ok (heap s ! j)"
      "unat (index (pipelines s ! i) + 1) < length (pipelines s)"
      "s' = s\<lparr>runs := (runs s)[g := (j', RunExited)],
               heap := (heap s)[j := (heap s ! j)\<lparr>Input := Output (heap s ! j), Output := ANil,
                                   FinishedC := chans s,
                                   tp := unat (index (pipelines s ! i) + 1)\<rparr>],
               chans := Suc (chans s),
               loops := (loops s)(i := LoopDo j)\<rparr>"
  | (FinPanic) g i j' c where "e = EFinished g i" "g < length (runs s)"
      "runs s ! g = (j', RunSelect c)"
      "s' = s\<lparr>runs := (runs s)[g := (j', RunExited)], panicked := Some IndexOutOfRange\<rparr>"
  | (DoSendBuf) i j where "e = EDoSend i" "i < length (pipelines s)" "loops s i = LoopDo j"
      "length (jobC s (tp (heap s ! j))) < unat (jobC_cap (pipelines s ! tp (heap s ! j)))"
      "s' = s\<lparr>jobC := (jobC s)(tp (heap s ! j) := jobC s (tp (heap s ! j)) @ [j]),
               runs := runs s @ [(j, RunTask)],
               admitted := (admitted s)(tp (heap s ! j) :=
                              admitted s (tp (heap s ! j)) @ [(j, Input (heap s ! j))]),
               loops := (loops s)(i := LoopSelect),
               handled := (handled s)(i := handled s i @ [j])\<rparr>"
  | (DoSendHand) i j where "e = EDoSend i" "i < length (pipelines s)" "loops s i = LoopDo j"
      "jobC s (tp (heap s ! j)) = []" "loops s (tp (heap s ! j)) = LoopSelect"
      "s' = s\<lparr>loops := (loops s)(tp (heap s ! j) := LoopWait j (FinishedC (heap s ! j)),
                                   i := LoopSelect),
               runs := runs s @ [(j, RunTask)],
               admitted := (admitted s)(tp (heap s ! j) :=
                              admitted s (tp (heap s ! j)) @ [(j, Input (heap s ! j))]),
               handled := (handled s)(i := handled s i @ [j])\<rparr>"
  | (DoClosed) i j where "e = EDoClosed i" "i < length (pipelines s)" "loops s i = LoopDo j"
      "closed s"
      "s' = s\<lparr>loops := (loops s)(i := LoopSelect),
               handled := (handled s)(i := handled s i @ [j])\<rparr>"
  | (Output) i j where "e = EOutput i" "i < length (pipelines s)" "loops s i = LoopOutput j"
      "s' = s\<lparr>received := received s @ [(j, Output (heap s ! j))],
               loops := (loops s)(i := LoopSelect),
               handled := (handled s)(i := handled s i @ [j])\<rparr>"
  | (Run) g j out ok where "e = ERun g" "g < length (runs s)" "runs s ! g = (j, RunTask)"
      "jobTask (pipelines s ! tp (heap s ! j)) (Input (heap s ! j)) = Inr (out, ok)"
      "s' = s\<lparr>heap := (heap s)[j := (heap s ! j)\<lparr>Output := out, Ok := ok\<rparr>],
               runs := (runs s)[g := (j, RunSelect (FinishedC (heap s ! j)))]\<rparr>"
  | (RunClosed) g j c where "e = ERunClosed g" "g < length (runs s)" "closed s"
      "runs s ! g = (j, RunSelect c)"
      "s' = s\<lparr>runs := (runs s)[g := (j, RunExited)]\<rparr>"
proof (cases e)
  case (EPushJob x)
  with assms show ?thesis
    by (auto simp: step_def PushJob_alloc_def do_send_def send_jobC_def Let_def
          split: if_splits intro: PushBuf PushHand Panic)
next
  case (EPushJobClosed x)
  with assms show ?thesis
    by (auto simp: step_def PushJob_alloc_def do_closed_def split: if_splits
          intro: PushClosed Panic)
next
  case EClose
  with assms show ?thesis
    by (auto simp: step_def Close_def split: if_splits intro: Close Panic)
next
  case ENoOutput
  with assms show ?thesis
    by (auto simp: step_def NoOutput_def split: if_splits intro: NoOutput)
next
  case (ELoopRecv i)
  with assms show ?thesis
    by (auto simp: step_def split: if_splits list.splits intro: LoopRecv)
next
  case (ELoopClosed i)
  with assms show ?thesis
    by (auto simp: step_def set_loop_def split: if_splits loop_pc.splits intro: LoopClosed)
next
  case (EFinished g i)
  with assms show ?thesis
    by (auto simp: step_def loop_finished_def set_loop_def loop_continue_def Let_def
          split: if_splits loop_pc.splits prod.splits run_pc.splits
          intro: FinOutput FinContinue FinDo FinPanic)
next
  case (EDoSend i)
  with assms show ?thesis
    by (auto simp: step_def do_send_def send_jobC_def loop_continue_def Let_def
          split: if_splits loop_pc.splits option.splits
          intro: DoSendBuf DoSendHand)
next
  case (EDoClosed i)
  with assms show ?thesis
    by (auto simp: step_def do_closed_def loop_continue_def
          split: if_splits loop_pc.splits option.splits intro: DoClosed)
next
  case (EOutput i)
  with assms show ?thesis
    by (auto simp: step_def loop_continue_def split: if_splits loop_pc.splits intro: Output)
next
  case (ERun g)
  with assms show ?thesis
    by (auto simp: step_def run_task_def Let_def
          split: if_splits prod.splits run_pc.splits sum.splits intro: Run Panic)
next
  case (ERunClosed g)
  with assms show ?thesis
    by (auto simp: step_def split: if_splits prod.splits run_pc.splits intro: RunClosed)
qed

subsection \<open>Output suppression\<close>

lemma noOutput_step:
  assumes "step e s = Some s'" "noOutput s"
  shows "noOutput s' \<and> (\<forall>i j. loops s' i = LoopOutput j \<longrightarrow> loops s i = LoopOutput j) \<and>
         (no_LoopOutput s \<longrightarrow> received s' = received s)"
  using assms(1)
  by (cases rule: step_cases) (use assms(2) in \<open>auto simp: no_LoopOutput_def split: if_splits\<close>)

lemma noOutput_exec:
  "exec es s = Some s' \<Longrightarrow> noOutput s \<Longrightarrow>
     noOutput s' \<and> (\<forall>i j. loops s' i = LoopOutput j \<longrightarrow> loops s i = LoopOutput j) \<and>
     (no_LoopOutput s \<longrightarrow> received s' = received s)"
proof (induction es arbitrary: s)
  case Nil
  then show ?case by simp
next
  case (Cons e es)
  then obtain s1 where s1: "step e s = Some s1" and rest: "exec es s1 = Some s'"
    by (auto split: option.splits)
  note a = noOutput_step [OF s1 Cons.prems(2)]
  then have "no_LoopOutput s \<longrightarrow> no_LoopOutput s1"
    by (auto simp: no_LoopOutput_def)
  with a Cons.IH [OF rest] show ?case by auto
qed

text \<open>
  Claim C9. \<^verbatim>\<open>OutputC\<close> returns the channel \<^verbatim>\<open>outputC\<close>, or nil when no output is
  configured. In every state a schedule reaches after \<^verbatim>\<open>NoOutput\<close>, \<^verbatim>\<open>OutputC\<close> is nil
  and a loop is at the send on \<^verbatim>\<open>outputC\<close> only if it was already there when
  \<^verbatim>\<open>NoOutput\<close> was called; when none was, nothing more is ever received. The last stage's
  loop, receiving a job's completion, is then done with the job at once.
\<close>

theorem NoOutput_suppresses_delivery:
  "OutputC p = (if noOutput p then None else Some OutputChan) \<and>
   OutputC (NoOutput p) = None \<and>
   (exec es (NoOutput p) = Some s \<longrightarrow>
      OutputC s = None \<and>
      (\<forall>i j. loops s i = LoopOutput j \<longrightarrow> loops p i = LoopOutput j) \<and>
      (no_LoopOutput p \<longrightarrow> received s = received p) \<and>
      (\<forall>i j c g. i < length (pipelines s) \<longrightarrow> pipelineCount s = index (pipelines s ! i) + 1 \<longrightarrow>
          loops s i = LoopWait j c \<longrightarrow> g < length (runs s) \<longrightarrow> runs s ! g = (j, RunSelect c) \<longrightarrow>
          panicked s = None \<longrightarrow>
          step (EFinished g i) s =
            Some (loop_continue i j (s\<lparr>runs := (runs s)[g := (j, RunExited)]\<rparr>))))"
proof -
  have "noOutput (NoOutput p)" by (simp add: NoOutput_def)
  from noOutput_exec [OF _ this, of es s]
  show ?thesis
    by (auto simp: OutputC_def NoOutput_def no_LoopOutput_def step_def loop_finished_def)
qed

theorem NoOutput_suppresses_delivery_witness:
  "no_LoopOutput demo1 \<and>
   OutputC demo1 = Some OutputChan \<and>
   OutputC (NoOutput demo1) = None \<and>
   map_option received
     (exec [EPushJob (AString ''job1''), ERun 0, ELoopRecv 0, EFinished 0 0] (NoOutput demo1))
     = Some [] \<and>
   map_option (\<lambda>s. (handled s 0, loops s 0))
     (exec [EPushJob (AString ''job1''), ERun 0, ELoopRecv 0, EFinished 0 0] (NoOutput demo1))
     = Some ([0], LoopSelect) \<and>
   exec [EPushJob (AString ''job1''), ERun 0, ELoopRecv 0, EFinished 0 0, EOutput 0]
     (NoOutput demo1) = None"
  using NoOutput_suppresses_delivery [of demo1
      "[EPushJob (AString ''job1''), ERun 0, ELoopRecv 0, EFinished 0 0]"
      "the (exec [EPushJob (AString ''job1''), ERun 0, ELoopRecv 0, EFinished 0 0]
             (NoOutput demo1))"]
  by (simp add: no_LoopOutput_def OutputC_def NoOutput_def append_processed_def demo1_eq
        demo_provider_def step_def PushJob_alloc_def do_send_def send_jobC_def run_task_def
        loop_finished_def loop_continue_def set_loop_def GenericTaskProvider_Task_def
        type_assert_def)

subsection \<open>Order within a stage\<close>

lemma fifo_stageD: "fifo_inv s \<Longrightarrow> fifo_stage s i"
  by (simp add: fifo_inv_def)

lemma fifo_inv_step:
  assumes "step e s = Some s'" "fifo_inv s"
  shows "fifo_inv s'"
  using assms(1)
proof (cases rule: step_cases)
  case (PushBuf x)
  then show ?thesis using assms(2)
    by (auto simp: fifo_inv_def fifo_stage_def)
next
  case (PushHand x)
  then show ?thesis using assms(2) fifo_stageD [OF assms(2), of 0]
    by (auto simp: fifo_inv_def fifo_stage_def)
next
  case (LoopRecv i j q)
  then show ?thesis using assms(2) fifo_stageD [OF assms(2), of i]
    by (auto simp: fifo_inv_def fifo_stage_def)
next
  case (LoopClosed i)
  then show ?thesis using assms(2)
    by (auto simp: fifo_inv_def fifo_stage_def)
next
  case (FinOutput g i j j' c)
  then show ?thesis using assms(2) fifo_stageD [OF assms(2), of i]
    by (auto simp: fifo_inv_def fifo_stage_def)
next
  case (FinContinue g i j j' c)
  then show ?thesis using assms(2) fifo_stageD [OF assms(2), of i]
    by (auto simp: fifo_inv_def fifo_stage_def)
next
  case (FinDo g i j j' c)
  then show ?thesis using assms(2) fifo_stageD [OF assms(2), of i]
    by (auto simp: fifo_inv_def fifo_stage_def)
next
  case (DoSendBuf i j)
  then show ?thesis using assms(2) fifo_stageD [OF assms(2), of i]
    by (auto simp: fifo_inv_def fifo_stage_def)
next
  case (DoSendHand i j)
  then show ?thesis using assms(2) fifo_stageD [OF assms(2), of i]
      fifo_stageD [OF assms(2), of "tp (heap s ! j)"]
    by (auto simp: fifo_inv_def fifo_stage_def)
next
  case (DoClosed i j)
  then show ?thesis using assms(2) fifo_stageD [OF assms(2), of i]
    by (auto simp: fifo_inv_def fifo_stage_def)
next
  case (Output i j)
  then show ?thesis using assms(2) fifo_stageD [OF assms(2), of i]
    by (auto simp: fifo_inv_def fifo_stage_def)
qed (use assms(2) in \<open>auto simp: fifo_inv_def fifo_stage_def\<close>)

subsection \<open>Ownership of jobs\<close>

lemma nth_upd: "a < length xs \<Longrightarrow> xs[j := v] ! a = (if a = j then v else xs ! a)"
  by auto

lemma step_static:
  assumes "step e s = Some s'"
  shows "pipelines s' = pipelines s \<and> pipelineCount s' = pipelineCount s"
  using assms by (cases rule: step_cases) auto

lemma wf_static_step: "step e s = Some s' \<Longrightarrow> wf_static s \<Longrightarrow> wf_static s'"
  using step_static [of e s s'] by (simp add: wf_static_def)

lemma wf_static_init: "RunParallelTaskPipeline n mcq provs = Inr p \<Longrightarrow> wf_static p"
proof -
  assume a: "RunParallelTaskPipeline n mcq provs = Inr p"
  then have ok: "n \<noteq> 0" "length mcq = unat n" "length provs = unat n"
      "NilTaskProvider \<notin> set provs"
    using RunParallelTaskPipeline_Inr by blast+
  from a RunParallelTaskPipeline_ok [OF ok] have
    "pipelineCount p = n" "pipelines p = map (stage_of mcq provs) [0 ..< unat n]"
    by auto
  with ok(1) show ?thesis
    by (simp add: wf_static_def stage_of_def)
qed

lemma next_index:
  assumes "wf_static s" "i < length (pipelines s)"
  shows "unat (index (pipelines s ! i) + 1) = (if Suc i = length (pipelines s) then unat (pipelineCount s) else Suc i) \<and>
         (pipelineCount s = index (pipelines s ! i) + 1 \<longleftrightarrow> Suc i = length (pipelines s))"
proof -
  have n: "length (pipelines s) = unat (pipelineCount s)" and
    ix: "index (pipelines s ! i) = of_nat i"
    using assms by (simp_all add: wf_static_def)
  have b: "unat (pipelineCount s) < 256" by (rule unat_u8_bound)
  have "Suc i < 256" using assms(2) n b by simp
  then have "unat (of_nat (Suc i) :: 8 word) = Suc i"
    by (simp only: unat_of_nat) simp
  then have u: "unat (index (pipelines s ! i) + 1) = Suc i"
    by (simp add: ix add.commute)
  have "pipelineCount s = index (pipelines s ! i) + 1 \<longleftrightarrow>
        unat (pipelineCount s) = unat (index (pipelines s ! i) + 1)"
    by (simp add: word_unat_eq_iff)
  with u n show ?thesis by auto
qed

lemma own_stageD: "own_inv s \<Longrightarrow> own_stage s k"
  by (simp add: own_inv_def)

lemma own_LoopDo:
  "own_inv s \<Longrightarrow> loops s i = LoopDo j \<Longrightarrow> j < length (heap s) \<and> tp (heap s ! j) = Suc i"
  using own_stageD [of s "Suc i"] by (simp add: own_stage_def members_def)

lemma own_waiting:
  "own_inv s \<Longrightarrow> j \<in> set (waiting (loops s i)) \<Longrightarrow> j < length (heap s) \<and> tp (heap s ! j) = i"
  using own_stageD [of s i] by (simp add: own_stage_def members_def)

lemma own_jobC:
  "own_inv s \<Longrightarrow> j \<in> set (jobC s i) \<Longrightarrow> j < length (heap s) \<and> tp (heap s ! j) = i"
  using own_stageD [of s i] by (simp add: own_stage_def members_def)

lemma own_inv_step:
  assumes "step e s = Some s'" "own_inv s" "wf_static s"
  shows "own_inv s'"
  unfolding own_inv_def
proof
  fix k
  have st: "\<And>k. own_stage s k" using assms(2) by (simp add: own_inv_def)
  from assms(1) show "own_stage s' k"
  proof (cases rule: step_cases)
    case (PushBuf x)
    then show ?thesis using st [of k]
      by (auto simp: own_stage_def members_def nth_append ball_Un intro: less_SucI split: nat.splits)
  next
    case (PushHand x)
    then show ?thesis using st [of k]
      by (auto simp: own_stage_def members_def nth_append ball_Un intro: less_SucI split: nat.splits)
  next
    case (PushClosed x)
    then show ?thesis using st [of k]
      by (auto simp: own_stage_def members_def nth_append ball_Un intro: less_SucI split: nat.splits)
  next
    case (LoopRecv i j q)
    then have "members s' = members s"
      by (auto simp: members_def fun_eq_iff split: nat.splits)
    then show ?thesis using st [of k] LoopRecv
      by (simp add: own_stage_def)
  next
    case (LoopClosed i)
    then show ?thesis using st [of k]
      by (auto simp: own_stage_def members_def split: nat.splits)
  next
    case (FinOutput g i j j' c)
    then have "members s' = members s"
      by (auto simp: members_def fun_eq_iff split: nat.splits)
    then show ?thesis using st [of k] FinOutput
      by (simp add: own_stage_def)
  next
    case (FinContinue g i j j' c)
    then show ?thesis using st [of k]
      by (auto simp: own_stage_def members_def split: nat.splits)
  next
    case (FinDo g i j j' c)
    have nx: "unat (index (pipelines s ! i) + 1) = Suc i"
      using next_index [OF assms(3) FinDo(2)] FinDo(6) by (simp split: if_splits)
    have j: "j < length (heap s)" "tp (heap s ! j) = i"
      using own_waiting [OF assms(2), of j i] FinDo(5) by simp_all
    have L: "loops s' = (loops s)(i := LoopDo j)" and Q: "jobC s' = jobC s"
      and H: "length (heap s') = length (heap s)"
        "\<And>j2. j2 \<noteq> j \<Longrightarrow> heap s' ! j2 = heap s ! j2"
        "tp (heap s' ! j) = Suc i"
      using FinDo(9) j(1) nx by simp_all
    have old_i: "members s i = (case i of 0 \<Rightarrow> [] | Suc a \<Rightarrow> forwarding (loops s a)) @ j # jobC s i"
      using FinDo(5) by (simp add: members_def)
    have new_i: "members s' i = (case i of 0 \<Rightarrow> [] | Suc a \<Rightarrow> forwarding (loops s a)) @ jobC s i"
      by (simp add: members_def L Q split: nat.splits)
    have new_Si: "members s' (Suc i) = j # members s (Suc i)"
      using FinDo(5) by (simp add: members_def L Q)
    have new_k: "members s' k = members s k" if "k \<noteq> i" "k \<noteq> Suc i"
      using that by (simp add: members_def L Q split: nat.splits)
    have notin: "j \<notin> set (members s k2)" if "k2 \<noteq> i" for k2
      using st [of k2] j(2) that by (auto simp: own_stage_def)
    have same: "heap s' ! a = heap s ! a" if "a \<in> set (members s k2)" "k2 \<noteq> i" for a k2
      using notin [OF that(2)] that(1) H(2) [of a] by auto
    consider "k = i" | "k = Suc i" | "k \<noteq> i" "k \<noteq> Suc i" by blast
    then show ?thesis
    proof cases
      case 1
      have "distinct (members s i)" and
        *: "\<forall>a \<in> set (members s i). a < length (heap s) \<and> tp (heap s ! a) = i"
        using st [of i] by (simp_all add: own_stage_def)
      then have d: "distinct (members s' i)" "j \<notin> set (members s' i)"
        "set (members s' i) \<subseteq> set (members s i)"
        unfolding old_i new_i by auto
      have "a < length (heap s') \<and> tp (heap s' ! a) = i" if "a \<in> set (members s' i)" for a
      proof -
        from that d have "a \<noteq> j" "a \<in> set (members s i)" by auto
        with * H show ?thesis by simp
      qed
      with d(1) 1 show ?thesis
        by (simp add: own_stage_def)
    next
      case 2
      have "j \<notin> set (members s (Suc i))" using notin [of "Suc i"] by simp
      then show ?thesis using 2 st [of "Suc i"] H(1,3) j(1) same [of _ "Suc i"]
        by (auto simp: own_stage_def new_Si)
    next
      case 3
      then show ?thesis using st [of k] H(1) same [of _ k]
        by (auto simp: own_stage_def new_k)
    qed
  next
    case (DoSendBuf i j)
    then show ?thesis using st [of k] own_LoopDo [OF assms(2), of i j]
      by (auto simp: own_stage_def members_def split: nat.splits)
  next
    case (DoSendHand i j)
    then show ?thesis using st [of k] own_LoopDo [OF assms(2), of i j]
      by (auto simp: own_stage_def members_def split: nat.splits)
  next
    case (DoClosed i j)
    then show ?thesis using st [of k]
      by (auto simp: own_stage_def members_def split: nat.splits)
  next
    case (Output i j)
    then show ?thesis using st [of k]
      by (auto simp: own_stage_def members_def split: nat.splits)
  next
    case (Run g j out ok)
    then have "members s' k = members s k" "length (heap s') = length (heap s)"
      "\<And>a. a < length (heap s) \<Longrightarrow> tp (heap s' ! a) = tp (heap s ! a)"
      by (auto simp: members_def nth_upd split: nat.splits)
    then show ?thesis using st [of k]
      by (simp add: own_stage_def)
  qed (use st [of k] in \<open>auto simp: own_stage_def members_def split: nat.splits\<close>)
qed

subsection \<open>Completion channels\<close>

lemma chan_bound_step:
  assumes "step e s = Some s'" "chan_bound s"
  shows "chan_bound s'"
  using assms(1)
proof (cases rule: step_cases)
  case (PushBuf x)
  then show ?thesis using assms(2)
    by (auto simp: chan_bound_def nth_append less_Suc_eq)
next
  case (PushHand x)
  then show ?thesis using assms(2)
    by (auto simp: chan_bound_def nth_append less_Suc_eq)
next
  case (PushClosed x)
  then show ?thesis using assms(2)
    by (auto simp: chan_bound_def nth_append less_Suc_eq)
next
  case (FinDo g i j j' c)
  then show ?thesis using assms(2)
    by (auto simp: chan_bound_def nth_upd less_Suc_eq)
next
  case (Run g j out ok)
  then show ?thesis using assms(2)
    by (auto simp: chan_bound_def nth_upd)
qed (use assms(2) in \<open>auto simp: chan_bound_def\<close>)

lemma inj_nth_append:
  assumes inj: "\<And>a b. a < length h \<Longrightarrow> b < length h \<Longrightarrow> f (h ! a) = f (h ! b) \<Longrightarrow> a = b"
    and bnd: "\<And>a. a < length h \<Longrightarrow> f (h ! a) < (n :: nat)" and v: "f v = n"
    and a: "a < length (h @ [v])" and b: "b < length (h @ [v])"
    and eq: "f ((h @ [v]) ! a) = f ((h @ [v]) ! b)"
  shows "a = b"
proof (cases "a < length h")
  case True
  note at = this
  show ?thesis
  proof (cases "b < length h")
    case True
    with at eq have "f (h ! a) = f (h ! b)" by (simp add: nth_append)
    with at True show ?thesis by (rule inj)
  next
    case False
    with b have "b = length h" by simp
    with at eq v have "f (h ! a) = n" by (simp add: nth_append)
    with bnd [OF at] show ?thesis by simp
  qed
next
  case False
  with a have al: "a = length h" by simp
  show ?thesis
  proof (cases "b < length h")
    case True
    with al eq v have "f (h ! b) = n" by (simp add: nth_append)
    with bnd [OF True] show ?thesis by simp
  next
    case False
    with b al show ?thesis by simp
  qed
qed

lemma inj_nth_update:
  assumes inj: "\<And>a b. a < length h \<Longrightarrow> b < length h \<Longrightarrow> f (h ! a) = f (h ! b) \<Longrightarrow> a = b"
    and v: "(\<forall>a < length h. f (h ! a) < (n :: nat)) \<and> f v = n \<or> f v = f (h ! j)"
    and a: "a < length (h[j := v])" and b: "b < length (h[j := v])"
    and eq: "f (h[j := v] ! a) = f (h[j := v] ! b)"
  shows "a = b"
proof (cases "j < length h")
  case False
  then have "h[j := v] = h" by (simp add: list_update_beyond)
  with a b eq show ?thesis by (simp add: inj)
next
  case j: True
  from a b have ab: "a < length h" "b < length h" by simp_all
  have fresh: "c = j" if c: "c < length h" and fc: "f (h ! c) = f v" for c
    using v
  proof
    assume "(\<forall>a < length h. f (h ! a) < n) \<and> f v = n"
    with c fc show ?thesis by auto
  next
    assume "f v = f (h ! j)"
    with fc have "f (h ! c) = f (h ! j)" by simp
    with c j show ?thesis by (rule inj)
  qed
  show ?thesis
  proof (cases "a = j")
    case True
    show ?thesis
    proof (cases "b = j")
      case True
      with \<open>a = j\<close> show ?thesis by simp
    next
      case False
      with True eq ab j have "f (h ! b) = f v" by (simp add: nth_upd)
      with fresh [OF ab(2)] False show ?thesis by simp
    qed
  next
    case False
    show ?thesis
    proof (cases "b = j")
      case True
      with False eq ab j have "f (h ! a) = f v" by (simp add: nth_upd)
      with fresh [OF ab(1)] False show ?thesis by simp
    next
      case bj: False
      with False eq ab have "f (h ! a) = f (h ! b)" by (simp add: nth_upd)
      with ab show ?thesis by (simp add: inj)
    qed
  qed
qed

lemma chan_inj_step:
  assumes "step e s = Some s'" "chan_inj s" "chan_bound s"
  shows "chan_inj s'"
  unfolding chan_inj_def
proof (intro allI impI)
  fix a b
  assume a: "a < length (heap s')" and b: "b < length (heap s')"
    and eq: "FinishedC (heap s' ! a) = FinishedC (heap s' ! b)"
  have inj: "\<And>a b. a < length (heap s) \<Longrightarrow> b < length (heap s) \<Longrightarrow>
               FinishedC (heap s ! a) = FinishedC (heap s ! b) \<Longrightarrow> a = b"
    using assms(2) by (simp add: chan_inj_def)
  have bnd: "\<And>a. a < length (heap s) \<Longrightarrow> FinishedC (heap s ! a) < chans s"
    using assms(3) by (simp add: chan_bound_def)
  have app: "a = b"
    if "heap s' = heap s @ [v]" "FinishedC v = chans s" for v
    using inj bnd that(2) a b eq unfolding that(1) by (rule inj_nth_append)
  have upd: "a = b"
    if "heap s' = (heap s)[j := v]" "FinishedC v = chans s \<or> FinishedC v = FinishedC (heap s ! j)"
    for v j
  proof -
    have "(\<forall>a < length (heap s). FinishedC (heap s ! a) < chans s) \<and> FinishedC v = chans s
            \<or> FinishedC v = FinishedC (heap s ! j)"
      using that(2) bnd by blast
    with inj show ?thesis using a b eq unfolding that(1) by (rule inj_nth_update)
  qed
  from assms(1) show "a = b"
  proof (cases rule: step_cases)
    case (PushBuf x)
    then have "heap s' = heap s @
        [\<lparr>Input = x, Output = ANil, Ok = False, FinishedC = chans s, tp = 0\<rparr>]" by simp
    then show ?thesis by (rule app) simp
  next
    case (PushHand x)
    then have "heap s' = heap s @
        [\<lparr>Input = x, Output = ANil, Ok = False, FinishedC = chans s, tp = 0\<rparr>]" by simp
    then show ?thesis by (rule app) simp
  next
    case (PushClosed x)
    then have "heap s' = heap s @
        [\<lparr>Input = x, Output = ANil, Ok = False, FinishedC = chans s, tp = 0\<rparr>]" by simp
    then show ?thesis by (rule app) simp
  next
    case (FinDo g i j j' c)
    then have "heap s' = (heap s)[j := (heap s ! j)\<lparr>Input := Output (heap s ! j),
        Output := ANil, FinishedC := chans s, tp := unat (index (pipelines s ! i) + 1)\<rparr>]"
      by simp
    then show ?thesis by (rule upd) simp
  next
    case (Run g j out ok)
    then have "heap s' = (heap s)[j := (heap s ! j)\<lparr>Output := out, Ok := ok\<rparr>]"
      by simp
    then show ?thesis by (rule upd) simp
  qed (use a b eq inj in \<open>simp_all\<close>)
qed

lemma own_LoopWait:
  "own_inv s \<Longrightarrow> loops s i = LoopWait j c \<Longrightarrow> j < length (heap s) \<and> tp (heap s ! j) = i"
  using own_waiting [of s j i] by simp

lemma own_LoopOutput:
  "own_inv s \<Longrightarrow> loops s i = LoopOutput j \<Longrightarrow> j < length (heap s) \<and> tp (heap s ! j) = i"
  using own_waiting [of s j i] by simp

lemma chan_wait_step:
  assumes "step e s = Some s'" "chan_wait s" "own_inv s"
  shows "chan_wait s'"
  unfolding chan_wait_def
proof (intro allI impI)
  fix i2 j2 c2
  assume w: "loops s' i2 = LoopWait j2 c2"
  have cw: "\<And>i j c. loops s i = LoopWait j c \<Longrightarrow> c = FinishedC (heap s ! j)"
    using assms(2) by (simp add: chan_wait_def)
  note ow = own_LoopWait [OF assms(3)]
  from assms(1) show "c2 = FinishedC (heap s' ! j2)"
  proof (cases rule: step_cases)
    case (PushBuf x)
    then show ?thesis using w cw [of i2 j2 c2] ow [of i2 j2 c2]
      by (auto simp: nth_append)
  next
    case (PushHand x)
    then show ?thesis using w cw [of i2 j2 c2] ow [of i2 j2 c2]
      by (auto simp: nth_append split: if_splits)
  next
    case (PushClosed x)
    then show ?thesis using w cw [of i2 j2 c2] ow [of i2 j2 c2]
      by (auto simp: nth_append)
  next
    case (FinDo g i j j' c)
    then show ?thesis using w cw [of i2 j2 c2] ow [of i2 j2 c2] ow [of i j c]
      by (auto simp: nth_upd split: if_splits)
  next
    case (Run g j out ok)
    then show ?thesis using w cw [of i2 j2 c2] ow [of i2 j2 c2]
      by (auto simp: nth_upd split: if_splits)
  qed (use w cw [of i2 j2 c2] in \<open>auto split: if_splits\<close>)
qed

subsection \<open>Reachable states\<close>

lemma exec_invariant:
  assumes "exec es s = Some s'" "P s"
    and "\<And>e s s'. step e s = Some s' \<Longrightarrow> P s \<Longrightarrow> P s'"
  shows "P s'"
  using assms(1,2)
proof (induction es arbitrary: s)
  case Nil
  then show ?case by simp
next
  case (Cons e es)
  then obtain s1 where "step e s = Some s1" "exec es s1 = Some s'"
    by (auto split: option.splits)
  with Cons.IH [of s1] assms(3) [of e s s1] Cons.prems(2) show ?case by blast
qed

lemma init_state:
  assumes "RunParallelTaskPipeline n mcq provs = Inr p"
  shows "jobC p = (\<lambda>_. [])" "loops p = (\<lambda>_. LoopSelect)" "heap p = []" "chans p = 0"
    "runs p = []" "admitted p = (\<lambda>_. [])" "handled p = (\<lambda>_. [])" "received p = []"
    "panicked p = None" "\<not> closed p" "\<not> noOutput p"
proof -
  from assms have ok: "n \<noteq> 0" "length mcq = unat n" "length provs = unat n"
      "NilTaskProvider \<notin> set provs"
    using RunParallelTaskPipeline_Inr by blast+
  from assms RunParallelTaskPipeline_ok [OF ok]
  show "jobC p = (\<lambda>_. [])" "loops p = (\<lambda>_. LoopSelect)" "heap p = []" "chans p = 0"
    "runs p = []" "admitted p = (\<lambda>_. [])" "handled p = (\<lambda>_. [])" "received p = []"
    "panicked p = None" "\<not> closed p" "\<not> noOutput p"
    by auto
qed

lemma fifo_inv_init: "RunParallelTaskPipeline n mcq provs = Inr p \<Longrightarrow> fifo_inv p"
  by (simp add: fifo_inv_def fifo_stage_def init_state)

lemma fifo_inv_exec:
  "RunParallelTaskPipeline n mcq provs = Inr p \<Longrightarrow> exec es p = Some s \<Longrightarrow> fifo_inv s"
  using exec_invariant [of es p s fifo_inv] fifo_inv_init fifo_inv_step by blast

lemma extends_step: "step e s = Some s' \<Longrightarrow> extends s s'"
  by (cases rule: step_cases) (auto simp: extends_def)

lemma extends_exec: "exec es s = Some s' \<Longrightarrow> extends s s'"
proof (induction es arbitrary: s)
  case Nil
  then show ?case by (simp add: extends_def)
next
  case (Cons e es)
  then obtain s1 where "step e s = Some s1" "exec es s1 = Some s'"
    by (auto split: option.splits)
  with Cons.IH [of s1] extends_step [of e s s1] show ?case
    by (auto simp: extends_def intro: prefix_order.trans)
qed

text \<open>
  Claim C3. In every state a schedule reaches from a freshly built pipeline, the jobs the loop
  of a stage is done with (forwarded into the next stage, delivered or dropped) are, in that
  order, a prefix of the jobs admitted to the stage: the \<open>b\<close>-th job handled is the
  \<open>b\<close>-th job admitted. Both lists only grow at their end, so a job admitted after another
  is handled only after it, whichever task finished first.
\<close>

theorem stage_handles_in_admission_order:
  assumes "RunParallelTaskPipeline n mcq provs = Inr p"
    and "exec es p = Some s" and "exec es' s = Some s'"
  shows "prefix (handled s i) (map fst (admitted s i)) \<and>
         (\<forall>b < length (handled s i). handled s i ! b = fst (admitted s i ! b)) \<and>
         prefix (handled s i) (handled s' i) \<and> prefix (admitted s i) (admitted s' i)"
proof -
  have p: "prefix (handled s i) (map fst (admitted s i))"
    using fifo_inv_exec [OF assms(1,2)] by (simp add: fifo_inv_def fifo_stage_def)
  then obtain r where r: "map fst (admitted s i) = handled s i @ r"
    by (auto simp: prefix_def)
  have "handled s i ! b = fst (admitted s i ! b)" if "b < length (handled s i)" for b
  proof -
    have "b < length (admitted s i)"
      using that arg_cong [OF r, of length] by simp
    then have "fst (admitted s i ! b) = map fst (admitted s i) ! b" by simp
    also have "\<dots> = handled s i ! b" using that by (simp add: r nth_append)
    finally show ?thesis by simp
  qed
  with p extends_exec [OF assms(3)] show ?thesis
    by (simp add: extends_def)
qed

lemma demo3_eq:
  "demo3 = \<lparr>pipelineCount = 3,
             pipelines = [\<lparr>index = 0, jobC_cap = 3, jobTask = projr (provider_Task demo_provider)\<rparr>,
                          \<lparr>index = 1, jobC_cap = 2, jobTask = projr (provider_Task demo_provider)\<rparr>,
                          \<lparr>index = 2, jobC_cap = 3, jobTask = projr (provider_Task demo_provider)\<rparr>],
             noOutput = False, closed = False, jobC = (\<lambda>_. []), loops = (\<lambda>_. LoopSelect),
             heap = [], chans = 0, runs = [], panicked = None, admitted = (\<lambda>_. []),
             handled = (\<lambda>_. []), received = []\<rparr>"
proof -
  have "[0 ..< 3] = [0, Suc 0, Suc (Suc 0)]"
    by (simp add: upt_conv_Cons)
  then show ?thesis
    using RunParallelTaskPipeline_ok [of 3 "[3, 2, 3]" "[demo_provider, demo_provider, demo_provider]"]
    by (simp add: demo3_def stage_of_def)
qed

lemmas run_defs = step_def PushJob_alloc_def do_send_def do_closed_def send_jobC_def
  run_task_def loop_finished_def loop_continue_def set_loop_def Close_def NoOutput_def
  GenericTaskProvider_Task_def type_assert_def append_processed_def demo_provider_def

theorem stage_handles_in_admission_order_witness:
  "RunParallelTaskPipeline 3 [3, 2, 3] [demo_provider, demo_provider, demo_provider]
     = Inr demo3 \<and>
   map_option (\<lambda>s. (runs s, loops s 0)) (exec sched_B_first demo3)
     = Some ([(0, RunTask), (1, RunSelect 1)], LoopWait 0 0) \<and>
   exec (sched_B_first @ [EFinished 1 0]) demo3 = None \<and>
   map_option (\<lambda>s. (map fst (admitted s 0), handled s 0))
     (exec (sched_B_first @
        [ERun 0, EFinished 0 0, EDoSend 0, ELoopRecv 0, EFinished 1 0, EDoSend 0]) demo3)
     = Some ([0, 1], [0, 1]) \<and>
   prefix [0, 1 :: nat] [0, 1]"
proof -
  let ?es = "sched_B_first @
        [ERun 0, EFinished 0 0, EDoSend 0, ELoopRecv 0, EFinished 1 0, EDoSend 0]"
  have r: "RunParallelTaskPipeline 3 [3, 2, 3] [demo_provider, demo_provider, demo_provider]
             = Inr demo3"
    using RunParallelTaskPipeline_ok [of 3 "[3, 2, 3]"
        "[demo_provider, demo_provider, demo_provider]"]
    by (simp add: demo3_def)
  have c2: "map_option (\<lambda>s. (runs s, loops s 0)) (exec sched_B_first demo3)
     = Some ([(0, RunTask), (1, RunSelect 1)], LoopWait 0 0)"
    by (simp add: sched_B_first_def demo3_eq run_defs)
  have c3: "exec (sched_B_first @ [EFinished 1 0]) demo3 = None"
    by (simp add: sched_B_first_def demo3_eq run_defs)
  have c4: "map_option (\<lambda>s. (map fst (admitted s 0), handled s 0)) (exec ?es demo3)
     = Some ([0, 1], [0, 1])"
    by (simp add: sched_B_first_def demo3_eq run_defs)
  have e: "exec ?es demo3 = Some (the (exec ?es demo3))"
    by (simp add: sched_B_first_def demo3_eq run_defs)
  have e0: "exec [] (the (exec ?es demo3)) = Some (the (exec ?es demo3))" by simp
  from stage_handles_in_admission_order [OF r e e0, of 0]
  have "prefix (handled (the (exec ?es demo3)) 0) (map fst (admitted (the (exec ?es demo3)) 0))"
    by simp
  then have c5: "prefix [0, 1 :: nat] [0, 1]"
    by (simp add: sched_B_first_def demo3_eq run_defs)
  from r c2 c3 c4 c5 show ?thesis by blast
qed

subsection \<open>A rejected job at the last stage\<close>

lemma demo_reject_eq:
  "demo_reject = \<lparr>pipelineCount = 1,
             pipelines = [\<lparr>index = 0, jobC_cap = 1, jobTask = projr (provider_Task reject_provider)\<rparr>],
             noOutput = False, closed = False, jobC = (\<lambda>_. []), loops = (\<lambda>_. LoopSelect),
             heap = [], chans = 0, runs = [], panicked = None, admitted = (\<lambda>_. []),
             handled = (\<lambda>_. []), received = []\<rparr>"
  using RunParallelTaskPipeline_ok [of 1 "[1]" "[reject_provider]"]
  by (simp add: demo_reject_def stage_of_def)

lemma demo_reject_first_eq:
  "demo_reject_first = \<lparr>pipelineCount = 2,
             pipelines = [\<lparr>index = 0, jobC_cap = 1, jobTask = projr (provider_Task reject_provider)\<rparr>,
                          \<lparr>index = 1, jobC_cap = 1, jobTask = projr (provider_Task demo_provider)\<rparr>],
             noOutput = False, closed = False, jobC = (\<lambda>_. []), loops = (\<lambda>_. LoopSelect),
             heap = [], chans = 0, runs = [], panicked = None, admitted = (\<lambda>_. []),
             handled = (\<lambda>_. []), received = []\<rparr>"
proof -
  have "[0 ..< 2] = [0, Suc 0]"
    by (simp add: upt_conv_Cons)
  then show ?thesis
    using RunParallelTaskPipeline_ok [of 2 "[1, 1]" "[reject_provider, demo_provider]"]
    by (simp add: demo_reject_first_def stage_of_def)
qed

text \<open>
  Claim C2 fails at the last stage. In the one-stage pipeline whose task returns
  \<^verbatim>\<open>ok = false\<close>, the loop tests \<^verbatim>\<open>pipelineCount == index+1\<close> before it tests
  \<^verbatim>\<open>job.Ok\<close>, so the rejected job's output is sent on \<^verbatim>\<open>outputC\<close> and a consumer
  receives it. As the first of two stages the same task makes the loop drop the job: nothing is
  admitted to the second stage.
\<close>

theorem last_stage_delivers_rejected_job:
  "jobTask (pipelines demo_reject ! 0) (AString ''job1'') = Inr (AString ''job1'', False) \<and>
   map_option (\<lambda>s. (map Ok (heap s), received s))
     (exec [EPushJob (AString ''job1''), ERun 0, ELoopRecv 0, EFinished 0 0, EOutput 0]
        demo_reject)
     = Some ([False], [(0, AString ''job1'')]) \<and>
   map_option (\<lambda>s. (handled s 0, admitted s 1, loops s 0))
     (exec [EPushJob (AString ''job1''), ERun 0, ELoopRecv 0, EFinished 0 0] demo_reject_first)
     = Some ([0], [], LoopSelect)"
  by (simp add: demo_reject_eq demo_reject_first_eq reject_provider_def reject_def run_defs)

subsection \<open>Close while the last stage delivers\<close>

text \<open>
  Claim C4 fails at the send on \<^verbatim>\<open>outputC\<close>, the one blocking operation that is not in
  a select with \<^verbatim>\<open>closeC\<close>. After the first schedule the controller is closed and the
  loop is blocked in that send; it cannot take \<^verbatim>\<open>closeC\<close>, and the only step it has is
  to hand the output to a consumer, which then receives a result after \<^verbatim>\<open>Close\<close>. After
  the second schedule two loops have taken \<^verbatim>\<open>closeC\<close> and returned, and the last stage
  still delivers.
\<close>

theorem output_send_not_raced_with_Close:
  "map_option (\<lambda>s. (closed s, loops s 0)) (exec sched_output_then_Close demo1)
     = Some (True, LoopOutput 0) \<and>
   exec (sched_output_then_Close @ [ELoopClosed 0]) demo1 = None \<and>
   exec (sched_output_then_Close @ [ELoopRecv 0]) demo1 = None \<and>
   exec (sched_output_then_Close @ [EDoClosed 0]) demo1 = None \<and>
   map_option received (exec (sched_output_then_Close @ [EOutput 0]) demo1)
     = Some [(0, AString ''job1 processed'')] \<and>
   map_option (\<lambda>s. (closed s, loops s 0, loops s 1, loops s 2, received s))
     (exec sched_Close_observed demo3)
     = Some (True, LoopReturned, LoopReturned, LoopOutput 0, []) \<and>
   map_option received (exec (sched_Close_observed @ [EOutput 2]) demo3)
     = Some [(0, AString ''A processed processed processed'')]"
  by (simp add: sched_output_then_Close_def sched_Close_observed_def demo1_eq demo3_eq run_defs)

subsection \<open>Fresh completion channels\<close>

lemma run_ptr_step:
  assumes "step e s = Some s'" "run_ptr s" "own_inv s"
  shows "run_ptr s'"
  unfolding run_ptr_def
proof (intro allI impI)
  fix g
  assume g: "g < length (runs s')"
  have rp: "\<And>g. g < length (runs s) \<Longrightarrow> fst (runs s ! g) < length (heap s)"
    using assms(2) by (simp add: run_ptr_def)
  from assms(1) show "fst (runs s' ! g) < length (heap s')"
  proof (cases rule: step_cases)
    case (PushBuf x)
    then show ?thesis using g rp [of g] by (auto simp: nth_append less_Suc_eq)
  next
    case (PushHand x)
    then show ?thesis using g rp [of g] by (auto simp: nth_append less_Suc_eq)
  next
    case (PushClosed x)
    then show ?thesis using g rp [of g] by (auto simp: nth_append less_Suc_eq)
  next
    case (DoSendBuf i j)
    then show ?thesis using g rp [of g] own_LoopDo [OF assms(3), of i j]
      by (auto simp: nth_append less_Suc_eq)
  next
    case (DoSendHand i j)
    then show ?thesis using g rp [of g] own_LoopDo [OF assms(3), of i j]
      by (auto simp: nth_append less_Suc_eq)
  qed (use g rp [of g] in \<open>auto simp: nth_upd\<close>)
qed

lemma run_chan_step:
  assumes "step e s = Some s'" "run_chan s" "run_ptr s" "chan_bound s"
  shows "run_chan s'"
  unfolding run_chan_def
proof (intro allI impI)
  fix g j2 c2
  assume g: "g < length (runs s')" and r: "runs s' ! g = (j2, RunSelect c2)"
  have rc: "\<And>g j c. g < length (runs s) \<Longrightarrow> runs s ! g = (j, RunSelect c) \<Longrightarrow> c < chans s"
    using assms(2) by (auto simp: run_chan_def)
  have rp: "\<And>g. g < length (runs s) \<Longrightarrow> fst (runs s ! g) < length (heap s)"
    using assms(3) by (simp add: run_ptr_def)
  have cb: "\<And>a. a < length (heap s) \<Longrightarrow> FinishedC (heap s ! a) < chans s"
    using assms(4) by (simp add: chan_bound_def)
  from assms(1) show "c2 < chans s'"
  proof (cases rule: step_cases)
    case (Run g' j out ok)
    then show ?thesis using g r rc [of g j2 c2] rp [of g'] cb [of j]
      by (auto simp: nth_upd split: if_splits)
  qed (use g r rc [of g j2 c2] in \<open>auto simp: nth_upd nth_append less_Suc_eq split: if_splits\<close>)
qed

lemma heap_inv_init: "RunParallelTaskPipeline n mcq provs = Inr p \<Longrightarrow> heap_inv p"
  using wf_static_init [of n mcq provs p]
  by (simp add: heap_inv_def own_inv_def own_stage_def members_def chan_bound_def chan_inj_def
        chan_wait_def run_ptr_def run_chan_def init_state split: nat.splits)

lemma heap_inv_step: "step e s = Some s' \<Longrightarrow> heap_inv s \<Longrightarrow> heap_inv s'"
  using wf_static_step own_inv_step chan_bound_step chan_inj_step chan_wait_step run_ptr_step
    run_chan_step
  by (simp add: heap_inv_def)

lemma heap_inv_exec:
  "RunParallelTaskPipeline n mcq provs = Inr p \<Longrightarrow> exec es p = Some s \<Longrightarrow> heap_inv s"
  using exec_invariant [of es p s heap_inv] heap_inv_init heap_inv_step by blast

lemma chans_in_use_bound:
  assumes "heap_inv s" "c \<in> chans_in_use s"
  shows "c < chans s"
proof -
  from assms(1) have own: "own_inv s" and cb: "chan_bound s" and cw: "chan_wait s"
    and rc: "run_chan s"
    by (simp_all add: heap_inv_def)
  from assms(2) have "c \<in> FinishedC ` set (heap s) \<or> (\<exists>i j. loops s i = LoopWait j c) \<or>
      (\<exists>j. (j, RunSelect c) \<in> set (runs s))"
    by (simp add: chans_in_use_def)
  then consider
      a where "a < length (heap s)" "c = FinishedC (heap s ! a)"
    | i j where "loops s i = LoopWait j c"
    | j where "(j, RunSelect c) \<in> set (runs s)"
    by (fastforce simp: in_set_conv_nth)
  then show ?thesis
  proof cases
    case 1
    with cb show ?thesis by (simp add: chan_bound_def)
  next
    case 2
    from cw 2 have "c = FinishedC (heap s ! j)" by (simp add: chan_wait_def)
    with own_LoopWait [OF own 2] cb show ?thesis
      by (simp add: chan_bound_def)
  next
    case 3
    then obtain g where "g < length (runs s)" "runs s ! g = (j, RunSelect c)"
      by (auto simp: in_set_conv_nth)
    with rc show ?thesis by (auto simp: run_chan_def)
  qed
qed

text \<open>
  Claim C7. Whenever a step of a reachable state brings a loop into \<^verbatim>\<open>job.do()\<close> for a
  job, the loop was waiting for that job and has rebuilt it: the input is the previous output,
  the output is nil, \<^verbatim>\<open>tp\<close> is the next stage and \<^verbatim>\<open>FinishedC\<close> is the channel made
  in this step. \<^verbatim>\<open>PushJob\<close> allocates its job with the channel made in that step. Every
  channel in use before the step was made earlier, so the new channel is none of them, a step
  brings no other channel into use, and no two jobs ever share a channel.
\<close>

theorem forwarded_job_rebuilt_with_fresh_channel:
  assumes "RunParallelTaskPipeline n mcq provs = Inr p"
    and "exec es p = Some s" and "step e s = Some s'"
  shows "(\<forall>i j. loops s' i = LoopDo j \<longrightarrow> loops s i \<noteq> LoopDo j \<longrightarrow>
            (\<exists>c. loops s i = LoopWait j c) \<and>
            heap s' ! j = \<lparr>Input = Output (heap s ! j), Output = ANil, Ok = True,
                            FinishedC = chans s, tp = Suc i\<rparr> \<and>
            chans s' = Suc (chans s)) \<and>
         (\<forall>x. e = EPushJob x \<longrightarrow> panicked s' = None \<longrightarrow>
            heap s' = heap s @ [\<lparr>Input = x, Output = ANil, Ok = False,
                                   FinishedC = chans s, tp = 0\<rparr>] \<and>
            chans s' = Suc (chans s)) \<and>
         (\<forall>c \<in> chans_in_use s. c < chans s) \<and>
         chans_in_use s' \<subseteq> chans_in_use s \<union> {chans s} \<and>
         chan_inj s'"
proof -
  have hi: "heap_inv s" using assms(1,2) by (rule heap_inv_exec)
  then have hi': "heap_inv s'" using assms(3) heap_inv_step by blast
  have wf: "wf_static s" and own: "own_inv s" using hi by (simp_all add: heap_inv_def)
  have fwd: "(\<exists>c. loops s i = LoopWait j c) \<and>
            heap s' ! j = \<lparr>Input = Output (heap s ! j), Output = ANil, Ok = True,
                            FinishedC = chans s, tp = Suc i\<rparr> \<and>
            chans s' = Suc (chans s)"
    if "loops s' i = LoopDo j" "loops s i \<noteq> LoopDo j" for i j
    using assms(3)
  proof (cases rule: step_cases)
    case (FinDo g i' j' j'' c)
    with that have [simp]: "i' = i" "j' = j" by (auto split: if_splits)
    have "unat (index (pipelines s ! i) + 1) = Suc i"
      using next_index [OF wf, of i] FinDo(2,6) by (simp split: if_splits)
    moreover have "j < length (heap s)"
      using own_LoopWait [OF own, of i j c] FinDo(5) by simp
    ultimately show ?thesis using FinDo by simp
  qed (use that in \<open>auto split: if_splits\<close>)
  have push: "heap s' = heap s @ [\<lparr>Input = x, Output = ANil, Ok = False,
                                   FinishedC = chans s, tp = 0\<rparr>] \<and>
            chans s' = Suc (chans s)"
    if "e = EPushJob x" "panicked s' = None" for x
    using assms(3)
  proof (cases rule: step_cases)
    case (Panic p)
    with that show ?thesis by simp
  qed (use that in \<open>auto\<close>)
  have use: "chans_in_use s' \<subseteq> chans_in_use s \<union> {chans s}"
    using assms(3)
  proof (cases rule: step_cases)
    case (FinDo g i j j' c)
    then show ?thesis
      by (auto simp: chans_in_use_def dest!: set_update_subset_insert [THEN subsetD]
            split: if_splits)
  next
    case (Run g j out ok)
    have "fst (runs s ! g) < length (heap s)"
      using hi Run(2) by (simp add: heap_inv_def run_ptr_def)
    then have "heap s ! j \<in> set (heap s)" using Run(3) by simp
    then show ?thesis using Run
      by (auto simp: chans_in_use_def dest!: set_update_subset_insert [THEN subsetD]
            split: if_splits)
  next
    case (LoopRecv i j q)
    have "heap s ! j \<in> set (heap s)"
      using own_jobC [OF own, of j i] LoopRecv(4) by simp
    then show ?thesis using LoopRecv
      by (auto simp: chans_in_use_def split: if_splits)
  next
    case (DoSendHand i j)
    have "heap s ! j \<in> set (heap s)"
      using own_LoopDo [OF own, of i j] DoSendHand(3) by simp
    then show ?thesis using DoSendHand
      by (auto simp: chans_in_use_def split: if_splits)
  qed (auto simp: chans_in_use_def dest!: set_update_subset_insert [THEN subsetD]
            split: if_splits)
  show ?thesis
    using fwd push use chans_in_use_bound [OF hi] hi'
    by (simp add: heap_inv_def)
qed

lemma demo3_run:
  "RunParallelTaskPipeline 3 [3, 2, 3] [demo_provider, demo_provider, demo_provider] = Inr demo3"
  using RunParallelTaskPipeline_ok [of 3 "[3, 2, 3]"
      "[demo_provider, demo_provider, demo_provider]"]
  by (simp add: demo3_def)

theorem forwarded_job_rebuilt_with_fresh_channel_witness:
  "RunParallelTaskPipeline 3 [3, 2, 3] [demo_provider, demo_provider, demo_provider]
     = Inr demo3 \<and>
   map_option (\<lambda>s. (loops s 0, heap s, chans s))
     (exec [EPushJob (AString ''A''), ERun 0, ELoopRecv 0] demo3)
     = Some (LoopWait 0 0,
             [\<lparr>Input = AString ''A'', Output = AString ''A processed'', Ok = True,
                FinishedC = 0, tp = 0\<rparr>], 1) \<and>
   map_option (\<lambda>s. (loops s 0, heap s, chans s))
     (exec [EPushJob (AString ''A''), ERun 0, ELoopRecv 0, EFinished 0 0] demo3)
     = Some (LoopDo 0,
             [\<lparr>Input = AString ''A processed'', Output = ANil, Ok = True,
                FinishedC = 1, tp = 1\<rparr>], 2) \<and>
   heap (the (exec [EPushJob (AString ''A''), ERun 0, ELoopRecv 0, EFinished 0 0] demo3)) ! 0
     = \<lparr>Input = AString ''A processed'', Output = ANil, Ok = True, FinishedC = 1,
         tp = Suc 0\<rparr>"
proof -
  let ?es = "[EPushJob (AString ''A''), ERun 0, ELoopRecv 0]"
  let ?s = "the (exec ?es demo3)"
  let ?s' = "the (exec (?es @ [EFinished 0 0]) demo3)"
  have c2: "map_option (\<lambda>s. (loops s 0, heap s, chans s)) (exec ?es demo3)
     = Some (LoopWait 0 0,
             [\<lparr>Input = AString ''A'', Output = AString ''A processed'', Ok = True,
                FinishedC = 0, tp = 0\<rparr>], 1)"
    by (simp add: demo3_eq run_defs)
  have c3: "map_option (\<lambda>s. (loops s 0, heap s, chans s)) (exec (?es @ [EFinished 0 0]) demo3)
     = Some (LoopDo 0,
             [\<lparr>Input = AString ''A processed'', Output = ANil, Ok = True,
                FinishedC = 1, tp = 1\<rparr>], 2)"
    by (simp add: demo3_eq run_defs)
  have e: "exec ?es demo3 = Some ?s"
    by (simp add: demo3_eq run_defs)
  have st: "step (EFinished 0 0) ?s = Some ?s'"
    by (simp add: demo3_eq run_defs)
  have l: "loops ?s' 0 = LoopDo 0" "loops ?s 0 \<noteq> LoopDo 0"
    "Output (heap ?s ! 0) = AString ''A processed''" "chans ?s = 1"
    by (simp_all add: demo3_eq run_defs)
  from forwarded_job_rebuilt_with_fresh_channel [OF demo3_run e st] l
  have c4: "heap ?s' ! 0 = \<lparr>Input = AString ''A processed'', Output = ANil, Ok = True,
               FinishedC = 1, tp = Suc 0\<rparr>"
    by (simp del: exec.simps One_nat_def)
  from demo3_run c2 c3 c4 show ?thesis by simp
qed

subsection \<open>The goroutines running tasks\<close>

lemma live_simps [simp]:
  "run_live (j, RunTask)" "run_live (j, RunSelect c)" "\<not> run_live (j, RunExited)"
  by (simp_all add: run_live_def)

lemma run_distinct_update:
  assumes "run_distinct s" "runs s' = (runs s)[g0 := r]" "g0 < length (runs s)"
    "fst r = fst (runs s ! g0)" "run_live r \<Longrightarrow> run_live (runs s ! g0)"
  shows "run_distinct s'"
  unfolding run_distinct_def
proof (intro allI impI)
  fix g h
  assume g: "g < length (runs s')" and h: "h < length (runs s')"
    and lg: "run_live (runs s' ! g)" and lh: "run_live (runs s' ! h)"
    and eq: "fst (runs s' ! g) = fst (runs s' ! h)"
  have 1: "g < length (runs s)" "h < length (runs s)" using g h assms(2) by simp_all
  have 2: "fst (runs s' ! a) = fst (runs s ! a) \<and> (run_live (runs s' ! a) \<longrightarrow> run_live (runs s ! a))"
    if "a < length (runs s)" for a
    using that assms(2-5) by (cases "a = g0") simp_all
  from 2 [OF 1(1)] 2 [OF 1(2)] lg lh eq 1 assms(1) show "g = h"
    by (simp add: run_distinct_def)
qed

lemma run_distinct_append:
  assumes "run_distinct s" "runs s' = runs s @ [r]"
    "\<And>g. g < length (runs s) \<Longrightarrow> run_live (runs s ! g) \<Longrightarrow> fst (runs s ! g) \<noteq> fst r"
  shows "run_distinct s'"
  unfolding run_distinct_def
proof (intro allI impI)
  fix g h
  assume g: "g < length (runs s')" and h: "h < length (runs s')"
    and lg: "run_live (runs s' ! g)" and lh: "run_live (runs s' ! h)"
    and eq: "fst (runs s' ! g) = fst (runs s' ! h)"
  show "g = h"
  proof (cases "g < length (runs s)")
    case True
    note gt = this
    show ?thesis
    proof (cases "h < length (runs s)")
      case True
      with gt lg lh eq assms(1,2) show ?thesis
        by (simp add: run_distinct_def nth_append)
    next
      case False
      with h assms(2) have "h = length (runs s)" by simp
      with gt lg eq assms(2) assms(3) [OF gt] show ?thesis
        by (simp add: nth_append)
    qed
  next
    case False
    with g assms(2) have gl: "g = length (runs s)" by simp
    show ?thesis
    proof (cases "h < length (runs s)")
      case True
      with gl lh eq assms(2) assms(3) [OF True] show ?thesis
        by (simp add: nth_append)
    next
      case False
      with h assms(2) gl show ?thesis by simp
    qed
  qed
qed

lemma run_distinct_same: "run_distinct s \<Longrightarrow> runs s' = runs s \<Longrightarrow> run_distinct s'"
  by (simp add: run_distinct_def)

lemma run_distinct_step:
  assumes "step e s = Some s'" "run_distinct s" "heap_inv s" "run_free s"
  shows "run_distinct s'"
proof -
  have rp: "\<And>g. g < length (runs s) \<Longrightarrow> fst (runs s ! g) \<noteq> length (heap s)"
    using assms(3) by (fastforce simp: heap_inv_def run_ptr_def)
  have rf: "\<And>i j g. loops s i = LoopDo j \<Longrightarrow> g < length (runs s) \<Longrightarrow>
      run_live (runs s ! g) \<Longrightarrow> fst (runs s ! g) \<noteq> j"
    using assms(4) by (auto simp: run_free_def)
  note upd = run_distinct_update [OF assms(2)] and app = run_distinct_append [OF assms(2)]
    and same = run_distinct_same [OF assms(2)]
  from assms(1) show ?thesis
  proof (cases rule: step_cases)
    case (PushBuf x)
    show ?thesis
      by (rule app [of _ "(length (heap s), RunTask)"]) (use PushBuf rp in auto)
  next
    case (PushHand x)
    show ?thesis
      by (rule app [of _ "(length (heap s), RunTask)"]) (use PushHand rp in auto)
  next
    case (FinOutput g i j j' c)
    show ?thesis
      by (rule upd [of _ g "(j', RunExited)"]) (use FinOutput in auto)
  next
    case (FinContinue g i j j' c)
    show ?thesis
      by (rule upd [of _ g "(j', RunExited)"]) (use FinContinue in auto)
  next
    case (FinDo g i j j' c)
    show ?thesis
      by (rule upd [of _ g "(j', RunExited)"]) (use FinDo in auto)
  next
    case (FinPanic g i j' c)
    show ?thesis
      by (rule upd [of _ g "(j', RunExited)"]) (use FinPanic in auto)
  next
    case (DoSendBuf i j)
    show ?thesis
      by (rule app [of _ "(j, RunTask)"]) (use DoSendBuf rf [of i j] in auto)
  next
    case (DoSendHand i j)
    show ?thesis
      by (rule app [of _ "(j, RunTask)"]) (use DoSendHand rf [of i j] in auto)
  next
    case (Run g j out ok)
    show ?thesis
      by (rule upd [of _ g "(j, RunSelect (FinishedC (heap s ! j)))"]) (use Run in auto)
  next
    case (RunClosed g j c)
    show ?thesis
      by (rule upd [of _ g "(j, RunExited)"]) (use RunClosed in auto)
  qed (auto intro: same)
qed

lemma finished_same_job:
  assumes "heap_inv s" "run_done s" "loops s i = LoopWait j c"
    "g < length (runs s)" "runs s ! g = (j', RunSelect c)"
  shows "j' = j"
proof -
  from assms(1) have own: "own_inv s" and cw: "chan_wait s" and ci: "chan_inj s"
    and rp: "run_ptr s"
    by (simp_all add: heap_inv_def)
  have "c = FinishedC (heap s ! j)" using cw assms(3) by (simp add: chan_wait_def)
  moreover have "c = FinishedC (heap s ! j')" using assms(2,4,5) by (simp add: run_done_def)
  moreover have "j < length (heap s)" using own_LoopWait [OF own assms(3)] by simp
  moreover have "j' < length (heap s)" using rp assms(4,5) by (fastforce simp: run_ptr_def)
  ultimately show ?thesis using ci by (simp add: chan_inj_def)
qed

lemma own_Do_unique:
  assumes "own_inv s" "loops s i = LoopDo j"
    "loops s i2 = LoopOutput j \<or> loops s i2 = LoopDo j \<or> (\<exists>c. loops s i2 = LoopWait j c)"
  shows "i2 = i \<and> loops s i2 = LoopDo j"
proof -
  have t: "tp (heap s ! j) = Suc i" using own_LoopDo [OF assms(1,2)] by simp
  from assms(3) consider "loops s i2 = LoopDo j" | "j \<in> set (waiting (loops s i2))"
    by auto
  then show ?thesis
  proof cases
    case 1
    with own_LoopDo [OF assms(1) 1] t show ?thesis by simp
  next
    case 2
    with own_waiting [OF assms(1) 2] t have i2: "i2 = Suc i" by simp
    have "distinct (members s (Suc i))"
      using own_stageD [OF assms(1), of "Suc i"] by (simp add: own_stage_def)
    with 2 i2 assms(2) show ?thesis by (simp add: members_def)
  qed
qed

lemma run_free_step:
  assumes "step e s = Some s'" "run_free s" "heap_inv s" "run_distinct s" "run_done s"
  shows "run_free s'"
  unfolding run_free_def
proof (intro allI impI)
  fix i2 j2 g2
  assume l: "loops s' i2 = LoopOutput j2 \<or> loops s' i2 = LoopDo j2"
    and g: "g2 < length (runs s')" and f: "fst (runs s' ! g2) = j2"
  from assms(3) have own: "own_inv s" by (simp add: heap_inv_def)
  have rf: "\<not> run_live (runs s ! g2)"
    if "loops s i2 = LoopOutput j2 \<or> loops s i2 = LoopDo j2" "g2 < length (runs s)"
      "fst (runs s ! g2) = j2"
    using that assms(2) unfolding run_free_def by blast
  have jb: "j2 < length (heap s)"
    if "loops s i2 = LoopOutput j2 \<or> loops s i2 = LoopDo j2"
    using that own_LoopDo [OF own, of i2 j2] own_LoopOutput [OF own, of i2 j2] by auto
  have fin: "\<not> run_live (runs s' ! g2)"
    if r: "runs s' = (runs s)[g := (j', RunExited)]" and g0: "g < length (runs s)"
      and rg: "runs s ! g = (j', RunSelect c)" and w: "loops s i = LoopWait j c"
      and l': "loops s' = (loops s)(i := pc)" "pc = LoopSelect \<or> pc = LoopOutput j \<or> pc = LoopDo j"
    for g j' c i j pc
  proof (cases "g2 = g")
    case True
    with r g0 show ?thesis by simp
  next
    case False
    have g2: "g2 < length (runs s)" using g r by simp
    have same: "runs s' ! g2 = runs s ! g2" using False r by simp
    show ?thesis
    proof (cases "i2 = i")
      case True
      with l l' have "pc = LoopOutput j2 \<or> pc = LoopDo j2" by simp
      with l'(2) have "j2 = j" by auto
      have "j' = j" using finished_same_job [OF assms(3,5) w g0 rg] .
      show ?thesis
      proof
        assume "run_live (runs s' ! g2)"
        with same have "run_live (runs s ! g2)" by simp
        moreover have "run_live (runs s ! g)" using rg by simp
        moreover have "fst (runs s ! g2) = fst (runs s ! g)"
          using f same rg \<open>j2 = j\<close> \<open>j' = j\<close> by simp
        ultimately have "g2 = g" using assms(4) g2 g0 by (simp add: run_distinct_def)
        with False show False by simp
      qed
    next
      case False
      with l l' have "loops s i2 = LoopOutput j2 \<or> loops s i2 = LoopDo j2" by simp
      from rf [OF this g2] f same show ?thesis by simp
    qed
  qed
  from assms(1) show "\<not> run_live (runs s' ! g2)"
  proof (cases rule: step_cases)
    case (PushBuf x)
    then have l0: "loops s i2 = LoopOutput j2 \<or> loops s i2 = LoopDo j2" using l by simp
    show ?thesis
    proof (cases "g2 < length (runs s)")
      case True
      with rf [OF l0 True] f PushBuf show ?thesis by (simp add: nth_append)
    next
      case False
      with g f PushBuf jb [OF l0] show ?thesis by (simp add: nth_append)
    qed
  next
    case (PushHand x)
    then have l0: "loops s i2 = LoopOutput j2 \<or> loops s i2 = LoopDo j2"
      using l by (auto split: if_splits)
    show ?thesis
    proof (cases "g2 < length (runs s)")
      case True
      with rf [OF l0 True] f PushHand show ?thesis by (simp add: nth_append)
    next
      case False
      with g f PushHand jb [OF l0] show ?thesis by (simp add: nth_append)
    qed
  next
    case (FinOutput g i j j' c)
    show ?thesis
      by (rule fin [of g j' c i j "LoopOutput j"]) (use FinOutput in auto)
  next
    case (FinContinue g i j j' c)
    show ?thesis
      by (rule fin [of g j' c i j "LoopSelect"]) (use FinContinue in auto)
  next
    case (FinDo g i j j' c)
    show ?thesis
      by (rule fin [of g j' c i j "LoopDo j"]) (use FinDo in auto)
  next
    case (FinPanic g i j' c)
    then show ?thesis using l g f rf
      by (cases "g2 = g") auto
  next
    case (DoSendBuf i j)
    then have l0: "loops s i2 = LoopOutput j2 \<or> loops s i2 = LoopDo j2" and ne: "i2 \<noteq> i"
      using l by (auto split: if_splits)
    show ?thesis
    proof (cases "g2 < length (runs s)")
      case True
      with rf [OF l0 True] f DoSendBuf show ?thesis by (simp add: nth_append)
    next
      case False
      with g f DoSendBuf have "j2 = j" by (simp add: nth_append)
      with own_Do_unique [OF own DoSendBuf(3), of i2] l0 ne show ?thesis by auto
    qed
  next
    case (DoSendHand i j)
    then have l0: "loops s i2 = LoopOutput j2 \<or> loops s i2 = LoopDo j2" and ne: "i2 \<noteq> i"
      using l by (auto split: if_splits)
    show ?thesis
    proof (cases "g2 < length (runs s)")
      case True
      with rf [OF l0 True] f DoSendHand show ?thesis by (simp add: nth_append)
    next
      case False
      with g f DoSendHand have "j2 = j" by (simp add: nth_append)
      with own_Do_unique [OF own DoSendHand(3), of i2] l0 ne show ?thesis by auto
    qed
  next
    case (Run g j out ok)
    then have l0: "loops s i2 = LoopOutput j2 \<or> loops s i2 = LoopDo j2" using l by simp
    have g2: "g2 < length (runs s)" using g Run by simp
    show ?thesis
    proof (cases "g2 = g")
      case True
      with rf [OF l0 g2] f Run show ?thesis by simp
    next
      case False
      with rf [OF l0 g2] f Run show ?thesis by simp
    qed
  next
    case (RunClosed g j c)
    then show ?thesis using l g f rf
      by (cases "g2 = g") auto
  qed (use l g f rf in \<open>auto split: if_splits\<close>)
qed

lemma run_done_step:
  assumes "step e s = Some s'" "run_done s" "heap_inv s" "run_distinct s"
  shows "run_done s'"
  unfolding run_done_def
proof (intro allI impI)
  fix g2 j2 c2
  assume g: "g2 < length (runs s')" and r: "runs s' ! g2 = (j2, RunSelect c2)"
  let ?P = "\<lambda>s. c2 = FinishedC (heap s ! j2) \<and>
        jobTask (pipelines s ! tp (heap s ! j2)) (Input (heap s ! j2))
          = Inr (Output (heap s ! j2), Ok (heap s ! j2))"
  from assms(3) have own: "own_inv s" and rp: "run_ptr s" by (simp_all add: heap_inv_def)
  have rd: "?P s" if "g2 < length (runs s)" "runs s ! g2 = (j2, RunSelect c2)"
    using that assms(2) unfolding run_done_def by blast
  have jb: "j2 < length (heap s)" if "g2 < length (runs s)" "runs s ! g2 = (j2, RunSelect c2)"
    using that rp by (fastforce simp: run_ptr_def)
  have st: "pipelines s' = pipelines s" using step_static [OF assms(1)] by simp
  have keep: "?P s'"
    if "g2 < length (runs s)" "runs s ! g2 = (j2, RunSelect c2)" "heap s' ! j2 = heap s ! j2"
    using rd [OF that(1,2)] that(3) st by simp
  have other: "j2 \<noteq> j"
    if "g0 < length (runs s)" "runs s ! g0 = (j, pc)" "pc \<noteq> RunExited" "g2 \<noteq> g0"
      "g2 < length (runs s)" "runs s ! g2 = (j2, RunSelect c2)" for g0 j pc
  proof
    assume "j2 = j"
    with that assms(4) have "g2 = g0"
      by (simp add: run_distinct_def run_live_def)
    with that(4) show False by simp
  qed
  from assms(1) show "?P s'"
  proof (cases rule: step_cases)
    case (PushBuf x)
    with g r have 1: "g2 < length (runs s)" "runs s ! g2 = (j2, RunSelect c2)"
      by (auto simp: nth_append less_Suc_eq split: if_splits)
    show ?thesis by (rule keep [OF 1]) (use PushBuf jb [OF 1] in \<open>simp add: nth_append\<close>)
  next
    case (PushHand x)
    with g r have 1: "g2 < length (runs s)" "runs s ! g2 = (j2, RunSelect c2)"
      by (auto simp: nth_append less_Suc_eq split: if_splits)
    show ?thesis by (rule keep [OF 1]) (use PushHand jb [OF 1] in \<open>simp add: nth_append\<close>)
  next
    case (PushClosed x)
    with g r have 1: "g2 < length (runs s)" "runs s ! g2 = (j2, RunSelect c2)"
      by auto
    show ?thesis by (rule keep [OF 1]) (use PushClosed jb [OF 1] in \<open>simp add: nth_append\<close>)
  next
    case (FinOutput g0 i j j' c)
    with g r have 1: "g2 < length (runs s)" "runs s ! g2 = (j2, RunSelect c2)"
      by (auto simp: nth_upd split: if_splits)
    show ?thesis by (rule keep [OF 1]) (use FinOutput in simp)
  next
    case (FinContinue g0 i j j' c)
    with g r have 1: "g2 < length (runs s)" "runs s ! g2 = (j2, RunSelect c2)"
      by (auto simp: nth_upd split: if_splits)
    show ?thesis by (rule keep [OF 1]) (use FinContinue in simp)
  next
    case (FinDo g0 i j j' c)
    with g r have 1: "g2 < length (runs s)" "runs s ! g2 = (j2, RunSelect c2)" and ne: "g2 \<noteq> g0"
      by (auto simp: nth_upd split: if_splits)
    have "j' = j" using finished_same_job [OF assms(3,2) FinDo(5,3,4)] .
    with other [OF FinDo(3,4) _ ne 1] have "j2 \<noteq> j" by simp
    show ?thesis by (rule keep [OF 1]) (use FinDo \<open>j2 \<noteq> j\<close> in simp)
  next
    case (FinPanic g0 i j' c)
    with g r have 1: "g2 < length (runs s)" "runs s ! g2 = (j2, RunSelect c2)"
      by (auto simp: nth_upd split: if_splits)
    show ?thesis by (rule keep [OF 1]) (use FinPanic in simp)
  next
    case (DoSendBuf i j)
    with g r have 1: "g2 < length (runs s)" "runs s ! g2 = (j2, RunSelect c2)"
      by (auto simp: nth_append less_Suc_eq split: if_splits)
    show ?thesis by (rule keep [OF 1]) (use DoSendBuf in simp)
  next
    case (DoSendHand i j)
    with g r have 1: "g2 < length (runs s)" "runs s ! g2 = (j2, RunSelect c2)"
      by (auto simp: nth_append less_Suc_eq split: if_splits)
    show ?thesis by (rule keep [OF 1]) (use DoSendHand in simp)
  next
    case (Run g0 j out ok)
    have jl: "j < length (heap s)" using rp Run(2,3) by (fastforce simp: run_ptr_def)
    show ?thesis
    proof (cases "g2 = g0")
      case True
      with r Run have "j2 = j" "c2 = FinishedC (heap s ! j)" by auto
      with Run jl show ?thesis by simp
    next
      case False
      with g r Run have 1: "g2 < length (runs s)" "runs s ! g2 = (j2, RunSelect c2)"
        by simp_all
      from other [OF Run(2,3) _ False 1] have "j2 \<noteq> j" by simp
      show ?thesis by (rule keep [OF 1]) (use Run \<open>j2 \<noteq> j\<close> in simp)
    qed
  next
    case (RunClosed g0 j c)
    with g r have 1: "g2 < length (runs s)" "runs s ! g2 = (j2, RunSelect c2)"
      by (auto simp: nth_upd split: if_splits)
    show ?thesis by (rule keep [OF 1]) (use RunClosed in simp)
  qed (use g r rd in \<open>auto\<close>)
qed

lemma run_inv_init: "RunParallelTaskPipeline n mcq provs = Inr p \<Longrightarrow> run_inv p"
  using heap_inv_init [of n mcq provs p]
  by (simp add: run_inv_def run_distinct_def run_free_def run_done_def init_state)

lemma run_inv_step: "step e s = Some s' \<Longrightarrow> run_inv s \<Longrightarrow> run_inv s'"
  using heap_inv_step run_distinct_step run_free_step run_done_step
  by (simp add: run_inv_def)

subsection \<open>The values jobs carry\<close>

lemma own_own:
  "own_inv s \<Longrightarrow> j \<in> set (waiting (loops s k) @ jobC s k) \<Longrightarrow>
     j < length (heap s) \<and> tp (heap s ! j) = k"
  using own_waiting [of s j k] own_jobC [of s j k] by auto

lemma own_Wait_other:
  assumes "own_inv s" "loops s i = LoopWait j c"
    "j2 \<in> set (waiting (loops s' k) @ jobC s k)" "loops s' = (loops s)(i := pc)"
    "waiting pc = []"
  shows "j2 \<noteq> j \<and> j2 \<in> set (waiting (loops s k) @ jobC s k)"
proof (cases "k = i")
  case True
  with assms(3-5) have in_q: "j2 \<in> set (jobC s i)" by simp
  have "distinct (members s i)"
    using own_stageD [OF assms(1), of i] by (simp add: own_stage_def)
  with assms(2) in_q True show ?thesis by (auto simp: members_def)
next
  case False
  with assms(3,4) have m: "j2 \<in> set (waiting (loops s k) @ jobC s k)" by simp
  from own_own [OF assms(1) m] own_LoopWait [OF assms(1,2)] False m show ?thesis by auto
qed

lemma val_stage_step:
  assumes "step e s = Some s'" "val_stage s" "heap_inv s"
  shows "val_stage s'"
  unfolding val_stage_def
proof (intro allI impI)
  fix k j2
  assume m: "j2 \<in> set (waiting (loops s' k) @ jobC s' k)"
  from assms(3) have own: "own_inv s" by (simp add: heap_inv_def)
  have vs: "(j, Input (heap s ! j)) \<in> set (admitted s k)"
    if "j \<in> set (waiting (loops s k) @ jobC s k)" for j k
    using that assms(2) unfolding val_stage_def by blast
  note oo = own_own [OF own]
  from assms(1) show "(j2, Input (heap s' ! j2)) \<in> set (admitted s' k)"
  proof (cases rule: step_cases)
    case (PushBuf x)
    show ?thesis
    proof (cases "j2 = length (heap s)")
      case True
      with m PushBuf oo [of j2 k] show ?thesis by (auto split: if_splits)
    next
      case False
      with m PushBuf have m0: "j2 \<in> set (waiting (loops s k) @ jobC s k)"
        by (auto split: if_splits)
      from vs [OF m0] oo [OF m0] PushBuf show ?thesis by (auto simp: nth_append)
    qed
  next
    case (PushHand x)
    show ?thesis
    proof (cases "j2 = length (heap s)")
      case True
      with m PushHand oo [of j2 k] show ?thesis by (auto split: if_splits)
    next
      case False
      with m PushHand have m0: "j2 \<in> set (waiting (loops s k) @ jobC s k)"
        by (auto split: if_splits)
      from vs [OF m0] oo [OF m0] PushHand show ?thesis by (auto simp: nth_append)
    qed
  next
    case (PushClosed x)
    with m have m0: "j2 \<in> set (waiting (loops s k) @ jobC s k)" by simp
    from vs [OF m0] oo [OF m0] PushClosed show ?thesis by (auto simp: nth_append)
  next
    case (LoopRecv i j q)
    with m have m0: "j2 \<in> set (waiting (loops s k) @ jobC s k)"
      by (auto split: if_splits)
    from vs [OF m0] LoopRecv show ?thesis by simp
  next
    case (LoopClosed i)
    with m have m0: "j2 \<in> set (waiting (loops s k) @ jobC s k)"
      by (auto split: if_splits)
    from vs [OF m0] LoopClosed show ?thesis by simp
  next
    case (FinOutput g i j j' c)
    with m have m0: "j2 \<in> set (waiting (loops s k) @ jobC s k)"
      by (auto split: if_splits)
    from vs [OF m0] FinOutput show ?thesis by simp
  next
    case (FinContinue g i j j' c)
    with m have m0: "j2 \<in> set (waiting (loops s k) @ jobC s k)"
      by (auto split: if_splits)
    from vs [OF m0] FinContinue show ?thesis by simp
  next
    case (FinDo g i j j' c)
    have "j2 \<noteq> j \<and> j2 \<in> set (waiting (loops s k) @ jobC s k)"
      by (rule own_Wait_other [OF own FinDo(5), of j2 s' k "LoopDo j"]) (use m FinDo in auto)
    with vs [of j2 k] FinDo show ?thesis by simp
  next
    case (DoSendBuf i j)
    show ?thesis
    proof (cases "j2 = j \<and> k = tp (heap s ! j)")
      case True
      with DoSendBuf show ?thesis by simp
    next
      case False
      with m DoSendBuf have m0: "j2 \<in> set (waiting (loops s k) @ jobC s k)"
        by (auto split: if_splits)
      from vs [OF m0] DoSendBuf show ?thesis by auto
    qed
  next
    case (DoSendHand i j)
    show ?thesis
    proof (cases "j2 = j \<and> k = tp (heap s ! j)")
      case True
      with DoSendHand show ?thesis by simp
    next
      case False
      with m DoSendHand have m0: "j2 \<in> set (waiting (loops s k) @ jobC s k)"
        by (auto split: if_splits)
      from vs [OF m0] DoSendHand show ?thesis by auto
    qed
  next
    case (DoClosed i j)
    with m have m0: "j2 \<in> set (waiting (loops s k) @ jobC s k)"
      by (auto split: if_splits)
    from vs [OF m0] DoClosed show ?thesis by simp
  next
    case (Output i j)
    with m have m0: "j2 \<in> set (waiting (loops s k) @ jobC s k)"
      by (auto split: if_splits)
    from vs [OF m0] Output show ?thesis by simp
  next
    case (Run g j out ok)
    with m have m0: "j2 \<in> set (waiting (loops s k) @ jobC s k)" by simp
    from vs [OF m0] oo [OF m0] Run show ?thesis by (auto simp: nth_upd)
  qed (use m vs [of j2 k] in \<open>auto\<close>)
qed

lemma finished_task_result:
  assumes "run_inv s" "loops s i = LoopWait j c" "g < length (runs s)"
    "runs s ! g = (j', RunSelect c)"
  shows "j' = j \<and> j < length (heap s) \<and> tp (heap s ! j) = i \<and>
         jobTask (pipelines s ! i) (Input (heap s ! j)) = Inr (Output (heap s ! j), Ok (heap s ! j))"
proof -
  from assms(1) have hi: "heap_inv s" and rd: "run_done s" by (simp_all add: run_inv_def)
  then have own: "own_inv s" by (simp add: heap_inv_def)
  have j: "j' = j" using finished_same_job [OF hi rd assms(2-4)] .
  with rd assms(3,4) own_LoopWait [OF own assms(2)] show ?thesis
    by (auto simp: run_done_def)
qed

lemma val_do_step:
  assumes "step e s = Some s'" "val_do s" "val_stage s" "run_inv s"
  shows "val_do s'"
  unfolding val_do_def
proof (intro allI impI)
  fix i2 j2
  assume l: "loops s' i2 = LoopDo j2"
  let ?G = "\<exists>x. (j2, x) \<in> set (admitted s' i2) \<and>
             jobTask (pipelines s' ! i2) x = Inr (Input (heap s' ! j2), True)"
  from assms(4) have hi: "heap_inv s" by (simp add: run_inv_def)
  then have own: "own_inv s" and wf: "wf_static s" by (simp_all add: heap_inv_def)
  have st: "pipelines s' = pipelines s" using step_static [OF assms(1)] by simp
  have ad: "set (admitted s i2) \<subseteq> set (admitted s' i2)"
    using extends_step [OF assms(1)] by (auto simp: extends_def dest: set_mono_prefix)
  have keep: ?G if "loops s i2 = LoopDo j2" "Input (heap s' ! j2) = Input (heap s ! j2)"
  proof -
    from that(1) assms(2) obtain x where "(j2, x) \<in> set (admitted s i2)"
      "jobTask (pipelines s ! i2) x = Inr (Input (heap s ! j2), True)"
      unfolding val_do_def by blast
    with ad that(2) st show ?thesis by auto
  qed
  have jb: "j2 < length (heap s)" if "loops s i2 = LoopDo j2"
    using own_LoopDo [OF own that] by simp
  from assms(1) show ?G
  proof (cases rule: step_cases)
    case (PushBuf x)
    with l have l0: "loops s i2 = LoopDo j2" by simp
    show ?thesis by (rule keep [OF l0]) (use PushBuf jb [OF l0] in \<open>simp add: nth_append\<close>)
  next
    case (PushHand x)
    with l have l0: "loops s i2 = LoopDo j2" by (auto split: if_splits)
    show ?thesis by (rule keep [OF l0]) (use PushHand jb [OF l0] in \<open>simp add: nth_append\<close>)
  next
    case (PushClosed x)
    with l have l0: "loops s i2 = LoopDo j2" by simp
    show ?thesis by (rule keep [OF l0]) (use PushClosed jb [OF l0] in \<open>simp add: nth_append\<close>)
  next
    case (FinDo g i j j' c)
    note fr = finished_task_result [OF assms(4) FinDo(5,3,4)]
    show ?thesis
    proof (cases "i2 = i")
      case True
      with l FinDo have [simp]: "j2 = j" by simp
      have "(j, Input (heap s ! j)) \<in> set (admitted s i)"
        using assms(3) FinDo(5) by (simp add: val_stage_def)
      with ad True have "(j, Input (heap s ! j)) \<in> set (admitted s' i2)" by auto
      moreover have "jobTask (pipelines s' ! i2) (Input (heap s ! j))
                       = Inr (Input (heap s' ! j2), True)"
        using fr FinDo(7,9) True st by simp
      ultimately show ?thesis by auto
    next
      case False
      with l FinDo have l0: "loops s i2 = LoopDo j2" by simp
      have "j2 \<noteq> j" using own_Do_unique [OF own l0, of i] FinDo(5) False by auto
      show ?thesis by (rule keep [OF l0]) (use FinDo \<open>j2 \<noteq> j\<close> in simp)
    qed
  next
    case (Run g j out ok)
    with l have l0: "loops s i2 = LoopDo j2" by simp
    show ?thesis by (rule keep [OF l0]) (use Run jb [OF l0] in \<open>simp add: nth_upd\<close>)
  qed ((rule keep; (insert l, auto split: if_splits))+)
qed

lemma val_out_step:
  assumes "step e s = Some s'" "val_out s" "run_inv s"
  shows "val_out s'"
  unfolding val_out_def
proof (intro allI impI)
  fix i2 j2
  assume l: "loops s' i2 = LoopOutput j2"
  let ?G = "Suc i2 = length (pipelines s') \<and>
        (\<exists>b. jobTask (pipelines s' ! i2) (Input (heap s' ! j2)) = Inr (Output (heap s' ! j2), b))"
  from assms(3) have hi: "heap_inv s" and rf: "run_free s" by (simp_all add: run_inv_def)
  then have own: "own_inv s" and wf: "wf_static s" by (simp_all add: heap_inv_def)
  have st: "pipelines s' = pipelines s" using step_static [OF assms(1)] by simp
  have keep: ?G if "loops s i2 = LoopOutput j2" "heap s' ! j2 = heap s ! j2"
    using that assms(2) st unfolding val_out_def by auto
  have jb: "j2 < length (heap s) \<and> tp (heap s ! j2) = i2" if "loops s i2 = LoopOutput j2"
    using own_LoopOutput [OF own that] by simp
  from assms(1) show ?G
  proof (cases rule: step_cases)
    case (PushBuf x)
    with l have l0: "loops s i2 = LoopOutput j2" by simp
    show ?thesis by (rule keep [OF l0]) (use PushBuf jb [OF l0] in \<open>simp add: nth_append\<close>)
  next
    case (PushHand x)
    with l have l0: "loops s i2 = LoopOutput j2" by (auto split: if_splits)
    show ?thesis by (rule keep [OF l0]) (use PushHand jb [OF l0] in \<open>simp add: nth_append\<close>)
  next
    case (PushClosed x)
    with l have l0: "loops s i2 = LoopOutput j2" by simp
    show ?thesis by (rule keep [OF l0]) (use PushClosed jb [OF l0] in \<open>simp add: nth_append\<close>)
  next
    case (FinOutput g i j j' c)
    note fr = finished_task_result [OF assms(3) FinOutput(5,3,4)]
    show ?thesis
    proof (cases "i2 = i")
      case True
      with l FinOutput have [simp]: "j2 = j" by simp
      have "Suc i = length (pipelines s)"
        using next_index [OF wf FinOutput(2)] FinOutput(6) by simp
      with fr True st FinOutput(8) show ?thesis by auto
    next
      case False
      with l FinOutput have l0: "loops s i2 = LoopOutput j2" by simp
      show ?thesis by (rule keep [OF l0]) (use FinOutput in simp)
    qed
  next
    case (FinDo g i j j' c)
    with l have l0: "loops s i2 = LoopOutput j2" and ne: "i2 \<noteq> i" by (auto split: if_splits)
    have "j2 \<noteq> j" using jb [OF l0] own_LoopWait [OF own FinDo(5)] ne by auto
    show ?thesis by (rule keep [OF l0]) (use FinDo \<open>j2 \<noteq> j\<close> in simp)
  next
    case (Run g j out ok)
    with l have l0: "loops s i2 = LoopOutput j2" by simp
    have "j2 \<noteq> j"
    proof
      assume "j2 = j"
      have "\<not> run_live (runs s ! g)"
        using rf unfolding run_free_def
        by (rule allE [where x = i2], elim allE [where x = j2] allE [where x = g])
           (use l0 Run(2,3) \<open>j2 = j\<close> in simp)
      with Run(3) show False by simp
    qed
    show ?thesis by (rule keep [OF l0]) (use Run \<open>j2 \<noteq> j\<close> in simp)
  qed ((rule keep; (insert l, auto split: if_splits))+)
qed

subsection \<open>From stage to stage\<close>

lemma val_chain_step:
  assumes "step e s = Some s'" "val_chain s" "val_do s" "heap_inv s"
  shows "val_chain s'"
  unfolding val_chain_def
proof (intro allI impI)
  fix k j2 x2
  assume a: "(j2, x2) \<in> set (admitted s' (Suc k))"
  let ?G = "\<exists>x'. (j2, x') \<in> set (admitted s' k) \<and> jobTask (pipelines s' ! k) x' = Inr (x2, True)"
  from assms(4) have own: "own_inv s" by (simp add: heap_inv_def)
  have st: "pipelines s' = pipelines s" using step_static [OF assms(1)] by simp
  have ad: "set (admitted s k) \<subseteq> set (admitted s' k)"
    using extends_step [OF assms(1)] by (auto simp: extends_def dest: set_mono_prefix)
  have keep: ?G if "(j2, x2) \<in> set (admitted s (Suc k))"
  proof -
    from that assms(2) obtain x' where "(j2, x') \<in> set (admitted s k)"
      "jobTask (pipelines s ! k) x' = Inr (x2, True)"
      unfolding val_chain_def by blast
    with ad st show ?thesis by auto
  qed
  have new: ?G if "loops s k = LoopDo j2" "x2 = Input (heap s ! j2)"
  proof -
    from that assms(3) obtain x' where "(j2, x') \<in> set (admitted s k)"
      "jobTask (pipelines s ! k) x' = Inr (x2, True)"
      unfolding val_do_def by blast
    with ad st show ?thesis by auto
  qed
  from assms(1) show ?G
  proof (cases rule: step_cases)
    case (DoSendBuf i j)
    have t: "tp (heap s ! j) = Suc i" using own_LoopDo [OF own DoSendBuf(3)] by simp
    from a DoSendBuf t consider "(j2, x2) \<in> set (admitted s (Suc k))"
      | "k = i" "j2 = j" "x2 = Input (heap s ! j)"
      by (auto split: if_splits)
    then show ?thesis
    proof cases
      case 1
      then show ?thesis by (rule keep)
    next
      case 2
      with DoSendBuf(3) show ?thesis by (intro new) simp_all
    qed
  next
    case (DoSendHand i j)
    have t: "tp (heap s ! j) = Suc i" using own_LoopDo [OF own DoSendHand(3)] by simp
    from a DoSendHand t consider "(j2, x2) \<in> set (admitted s (Suc k))"
      | "k = i" "j2 = j" "x2 = Input (heap s ! j)"
      by (auto split: if_splits)
    then show ?thesis
    proof cases
      case 1
      then show ?thesis by (rule keep)
    next
      case 2
      with DoSendHand(3) show ?thesis by (intro new) simp_all
    qed
  qed ((rule keep; (insert a, auto))+)
qed

lemma val_recv_step:
  assumes "step e s = Some s'" "val_recv s" "val_out s" "val_stage s"
  shows "val_recv s'"
  unfolding val_recv_def
proof (intro allI impI)
  fix j2 v2
  assume a: "(j2, v2) \<in> set (received s')"
  let ?n = "length (pipelines s) - 1"
  let ?G = "\<exists>x b. (j2, x) \<in> set (admitted s' (length (pipelines s') - 1)) \<and>
               jobTask (pipelines s' ! (length (pipelines s') - 1)) x = Inr (v2, b)"
  have st: "pipelines s' = pipelines s" using step_static [OF assms(1)] by simp
  have ad: "set (admitted s ?n) \<subseteq> set (admitted s' ?n)"
    using extends_step [OF assms(1)] by (auto simp: extends_def dest: set_mono_prefix)
  have keep: ?G if "(j2, v2) \<in> set (received s)"
  proof -
    from that assms(2) obtain x b where "(j2, x) \<in> set (admitted s ?n)"
      "jobTask (pipelines s ! ?n) x = Inr (v2, b)"
      unfolding val_recv_def by blast
    with ad st show ?thesis by auto
  qed
  from assms(1) show ?G
  proof (cases rule: step_cases)
    case (Output i j)
    show ?thesis
    proof (cases "(j2, v2) \<in> set (received s)")
      case True
      then show ?thesis by (rule keep)
    next
      case False
      with a Output have [simp]: "j2 = j" "v2 = Output (heap s ! j)" by auto
      from assms(3) Output(3) obtain b where i: "Suc i = length (pipelines s)"
        and t: "jobTask (pipelines s ! i) (Input (heap s ! j)) = Inr (Output (heap s ! j), b)"
        unfolding val_out_def by blast
      have "(j, Input (heap s ! j)) \<in> set (admitted s i)"
        using assms(4) Output(3) by (simp add: val_stage_def)
      moreover from i have "?n = i" by simp
      ultimately show ?thesis using ad t st by auto
    qed
  qed ((rule keep; (insert a, auto))+)
qed

lemma ord_chain_step:
  assumes "step e s = Some s'" "ord_chain s" "heap_inv s"
  shows "ord_chain s'"
  unfolding ord_chain_def
proof
  fix k
  from assms(3) have own: "own_inv s" by (simp add: heap_inv_def)
  have oc: "subseq (map fst (admitted s (Suc k))) (handled s k)"
    using assms(2) by (simp add: ord_chain_def)
  from assms(1) show "subseq (map fst (admitted s' (Suc k))) (handled s' k)"
  proof (cases rule: step_cases)
    case (DoSendBuf i j)
    have t: "tp (heap s ! j) = Suc i" using own_LoopDo [OF own DoSendBuf(3)] by simp
    with DoSendBuf oc show ?thesis by (auto intro: list_emb_append_mono)
  next
    case (DoSendHand i j)
    have t: "tp (heap s ! j) = Suc i" using own_LoopDo [OF own DoSendHand(3)] by simp
    with DoSendHand oc show ?thesis by (auto intro: list_emb_append_mono)
  qed (use oc in \<open>auto intro: subseq_rev_drop_many\<close>)
qed

lemma ord_recv_step:
  assumes "step e s = Some s'" "ord_recv s" "val_out s"
  shows "ord_recv s'"
proof -
  let ?n = "length (pipelines s) - 1"
  have st: "pipelines s' = pipelines s" using step_static [OF assms(1)] by simp
  have o: "subseq (map fst (received s)) (handled s ?n)"
    using assms(2) by (simp add: ord_recv_def)
  have "subseq (map fst (received s')) (handled s' ?n)"
    using assms(1)
  proof (cases rule: step_cases)
    case (Output i j)
    from assms(3) Output(3) have "Suc i = length (pipelines s)"
      unfolding val_out_def by blast
    then have "?n = i" by simp
    with Output o show ?thesis by (auto intro: list_emb_append_mono)
  qed (use o in \<open>auto intro: subseq_rev_drop_many\<close>)
  with st show ?thesis by (simp add: ord_recv_def)
qed

lemma adm_first_step:
  assumes "step e s = Some s'" "adm_first s" "heap_inv s"
  shows "adm_first s'"
proof -
  from assms(3) have own: "own_inv s" by (simp add: heap_inv_def)
  from assms(1) show ?thesis
  proof (cases rule: step_cases)
    case (PushBuf x)
    with assms(2) show ?thesis by (fastforce simp: adm_first_def)
  next
    case (PushHand x)
    with assms(2) show ?thesis by (fastforce simp: adm_first_def)
  next
    case (PushClosed x)
    with assms(2) show ?thesis by (fastforce simp: adm_first_def)
  next
    case (DoSendBuf i j)
    have t: "tp (heap s ! j) = Suc i" using own_LoopDo [OF own DoSendBuf(3)] by simp
    with DoSendBuf assms(2) show ?thesis by (simp add: adm_first_def)
  next
    case (DoSendHand i j)
    have t: "tp (heap s ! j) = Suc i" using own_LoopDo [OF own DoSendHand(3)] by simp
    with DoSendHand assms(2) show ?thesis by (simp add: adm_first_def)
  qed (use assms(2) in \<open>auto simp: adm_first_def\<close>)
qed

subsection \<open>What is delivered\<close>

lemma pipe_inv_init: "RunParallelTaskPipeline n mcq provs = Inr p \<Longrightarrow> pipe_inv p"
  using run_inv_init [of n mcq provs p] fifo_inv_init [of n mcq provs p]
  by (simp add: pipe_inv_def val_stage_def val_do_def val_out_def val_chain_def val_recv_def
        ord_chain_def ord_recv_def adm_first_def init_state)

lemma pipe_inv_step: "step e s = Some s' \<Longrightarrow> pipe_inv s \<Longrightarrow> pipe_inv s'"
  using run_inv_step [of e s s'] fifo_inv_step [of e s s'] val_stage_step [of e s s']
    val_do_step [of e s s'] val_out_step [of e s s'] val_chain_step [of e s s']
    val_recv_step [of e s s'] ord_chain_step [of e s s'] ord_recv_step [of e s s']
    adm_first_step [of e s s']
  by (simp add: pipe_inv_def run_inv_def)

lemma pipe_inv_exec:
  "RunParallelTaskPipeline n mcq provs = Inr p \<Longrightarrow> exec es p = Some s \<Longrightarrow> pipe_inv s"
  using exec_invariant [of es p s pipe_inv] pipe_inv_init pipe_inv_step by blast

lemma compose_tasks_append:
  "compose_tasks (ts @ us) x =
     (case compose_tasks ts x of None \<Rightarrow> None | Some y \<Rightarrow> compose_tasks us y)"
  by (induction ts arbitrary: x) (auto split: sum.splits)

lemma all_continue_append:
  "all_continue (ts @ us) x \<longleftrightarrow>
     all_continue ts x \<and> (case compose_tasks ts x of None \<Rightarrow> False | Some y \<Rightarrow> all_continue us y)"
  by (induction ts arbitrary: x) (auto split: sum.splits)

lemma admitted_from_first:
  assumes "val_chain s" "(j, x) \<in> set (admitted s k)" "k \<le> length (pipelines s)"
  shows "\<exists>x0. (j, x0) \<in> set (admitted s 0) \<and>
           compose_tasks (take k (map jobTask (pipelines s))) x0 = Some x \<and>
           all_continue (take k (map jobTask (pipelines s))) x0"
  using assms(2,3)
proof (induction k arbitrary: x)
  case 0
  then show ?case by auto
next
  case (Suc k)
  let ?ts = "map jobTask (pipelines s)"
  from Suc.prems(1) assms(1) obtain x' where x': "(j, x') \<in> set (admitted s k)"
    "jobTask (pipelines s ! k) x' = Inr (x, True)"
    unfolding val_chain_def by blast
  from Suc.IH [OF x'(1)] Suc.prems(2) obtain x0 where x0: "(j, x0) \<in> set (admitted s 0)"
    "compose_tasks (take k ?ts) x0 = Some x'" "all_continue (take k ?ts) x0"
    by auto
  have "take (Suc k) ?ts = take k ?ts @ [jobTask (pipelines s ! k)]"
    using Suc.prems(2) by (simp add: take_Suc_conv_app_nth)
  with x0 x'(2) show ?case
    by (auto simp: compose_tasks_append all_continue_append)
qed

lemma admitted_subseq_first:
  assumes "ord_chain s" "fifo_inv s"
  shows "subseq (map fst (admitted s k)) (map fst (admitted s 0))"
proof (induction k)
  case 0
  then show ?case by simp
next
  case (Suc k)
  have "subseq (map fst (admitted s (Suc k))) (handled s k)"
    using assms(1) by (simp add: ord_chain_def)
  moreover have "subseq (handled s k) (map fst (admitted s k))"
    using fifo_stageD [OF assms(2), of k] by (auto simp: fifo_stage_def)
  ultimately show ?case using Suc.IH
    by (blast intro: subseq_order.trans)
qed

lemma tasks_of_run:
  assumes "RunParallelTaskPipeline n mcq provs = Inr p" "exec es p = Some s"
  shows "pipelines s = pipelines p"
    and "map provider_Task provs = map Inr (map jobTask (pipelines p))"
proof -
  from assms(1) have ok: "n \<noteq> 0" "length mcq = unat n" "length provs = unat n"
      "NilTaskProvider \<notin> set provs"
    using RunParallelTaskPipeline_Inr by blast+
  show "pipelines s = pipelines p"
    using exec_invariant [OF assms(2), of "\<lambda>t. pipelines t = pipelines p"] step_static
    by simp
  have p: "pipelines p = map (stage_of mcq provs) [0 ..< unat n]"
    using assms(1) RunParallelTaskPipeline_ok [OF ok] by auto
  have "provider_Task (provs ! i) = Inr (projr (provider_Task (provs ! i)))" if "i < unat n" for i
    using ok(3,4) that by (intro provider_Task_projr) (metis nth_mem)
  then show "map provider_Task provs = map Inr (map jobTask (pipelines p))"
    using ok(3) unfolding p by (auto simp: stage_of_def intro: nth_equalityI)
qed

lemma exec_append:
  "exec (es @ es') s = (case exec es s of None \<Rightarrow> None | Some s1 \<Rightarrow> exec es' s1)"
  by (induction es arbitrary: s) (auto split: option.splits)

lemma job_at_done:
  assumes "job_at p i x s" "i < length (pipelines p)"
    "jobTask (pipelines p ! i) x = Inr (y, ok)"
  shows "\<exists>es s'. exec es s = Some s' \<and> job_done p i x y ok s'"
proof -
  from assms(1) obtain out b where
    h: "heap s = [\<lparr>Input = x, Output = out, Ok = b, FinishedC = i, tp = i\<rparr>]"
    by (auto simp: job_at_def)
  from assms(1) consider "jobC s i = [0]" "loops s i = LoopSelect"
    | "jobC s i = []" "loops s i = LoopWait 0 i"
    by (auto simp: job_at_def)
  then show ?thesis
  proof cases
    case 1
    have "\<exists>s'. exec [ERun i, ELoopRecv i] s = Some s' \<and> job_done p i x y ok s'"
      using assms 1 h
      by (auto simp: job_at_def job_done_def step_def run_task_def)
    then show ?thesis by blast
  next
    case 2
    have "\<exists>s'. exec [ERun i] s = Some s' \<and> job_done p i x y ok s'"
      using assms 2 h
      by (auto simp: job_at_def job_done_def step_def run_task_def)
    then show ?thesis by blast
  qed
qed

lemma job_done_output:
  assumes "job_done p i x y ok s" "Suc i = length (pipelines p)" "wf_static p"
  shows "\<exists>es s'. exec es s = Some s' \<and> received s' = [(0, y)]"
proof -
  have i: "i < length (pipelines s)" and wf: "wf_static s"
    using assms by (auto simp: job_done_def wf_static_def)
  have last: "pipelineCount s = index (pipelines s ! i) + 1"
    using next_index [OF wf i] assms(1,2) by (simp add: job_done_def)
  have "\<exists>s'. exec [EFinished i i, EOutput i] s = Some s' \<and> received s' = [(0, y)]"
    using assms(1) i last
    by (auto simp: job_done_def step_def loop_finished_def set_loop_def loop_continue_def)
  then show ?thesis by blast
qed

lemma job_done_next:
  assumes "job_done p i x y True s" "Suc i < length (pipelines p)" "wf_static p"
  shows "\<exists>es s'. exec es s = Some s' \<and> job_at p (Suc i) y s'"
proof -
  have i: "i < length (pipelines s)" and wf: "wf_static s"
    using assms by (auto simp: job_done_def wf_static_def)
  have nl: "pipelineCount s \<noteq> index (pipelines s ! i) + 1"
    and nx: "unat (index (pipelines s ! i) + 1) = Suc i"
    using next_index [OF wf i] assms(1,2) by (auto simp: job_done_def)
  have "\<exists>s'. exec [EFinished i i, EDoSend i] s = Some s' \<and> job_at p (Suc i) y s'"
    using assms(1,2) i nl nx
    by (auto simp: job_done_def job_at_def step_def loop_finished_def set_loop_def
          loop_continue_def do_send_def send_jobC_def nth_append)
  then show ?thesis by blast
qed


lemma job_at_delivers:
  assumes "wf_static p"
  shows "job_at p i x s \<Longrightarrow> i < length (pipelines p) \<Longrightarrow> k = length (pipelines p) - i \<Longrightarrow>
         compose_tasks (drop i (map jobTask (pipelines p))) x = Some v \<Longrightarrow>
         all_continue (butlast (drop i (map jobTask (pipelines p)))) x \<Longrightarrow>
         \<exists>es s'. exec es s = Some s' \<and> received s' = [(0, v)]"
proof (induction k arbitrary: i x s)
  case 0
  then show ?case by simp
next
  case (Suc k)
  let ?ts = "map jobTask (pipelines p)"
  have d: "drop i ?ts = jobTask (pipelines p ! i) # drop (Suc i) ?ts"
    using Suc.prems(2) by (simp flip: Cons_nth_drop_Suc)
  from Suc.prems(4) obtain y ok where t: "jobTask (pipelines p ! i) x = Inr (y, ok)"
    and c: "compose_tasks (drop (Suc i) ?ts) y = Some v"
    unfolding d by (auto split: sum.splits)
  from job_at_done [OF Suc.prems(1,2) t] obtain es1 s1 where
    1: "exec es1 s = Some s1" "job_done p i x y ok s1"
    by blast
  show ?case
  proof (cases "Suc i = length (pipelines p)")
    case True
    with c have "v = y" by simp
    with job_done_output [OF 1(2) True assms] obtain es2 s2 where
      "exec es2 s1 = Some s2" "received s2 = [(0, v)]"
      by blast
    with 1(1) have "exec (es1 @ es2) s = Some s2" by (simp add: exec_append)
    with \<open>received s2 = [(0, v)]\<close> show ?thesis by blast
  next
    case False
    with Suc.prems(2) have lt: "Suc i < length (pipelines p)" by simp
    then have ne: "drop (Suc i) ?ts \<noteq> []" by simp
    with Suc.prems(5) t have ok: "ok" and ac: "all_continue (butlast (drop (Suc i) ?ts)) y"
      unfolding d by simp_all
    from 1(2) ok have "job_done p i x y True s1" by simp
    from job_done_next [OF this lt assms] obtain es2 s2 where
      2: "exec es2 s1 = Some s2" "job_at p (Suc i) y s2"
      by blast
    have "k = length (pipelines p) - Suc i" using Suc.prems(3) by simp
    from Suc.IH [OF 2(2) lt this c ac] obtain es3 s3 where
      3: "exec es3 s2 = Some s3" "received s3 = [(0, v)]"
      by blast
    from 1(1) 2(1) 3(1) have "exec (es1 @ es2 @ es3) s = Some s3"
      by (simp add: exec_append)
    with 3(2) show ?thesis by blast
  qed
qed

lemma push_job_at:
  assumes "RunParallelTaskPipeline n mcq provs = Inr p"
  shows "\<exists>s. step (EPushJob x) p = Some s \<and> job_at p 0 x s"
proof -
  from wf_static_init [OF assms] have "pipelines p \<noteq> []"
    by (auto simp: wf_static_def unat_eq_0)
  then show ?thesis
    by (auto simp: job_at_def step_def PushJob_alloc_def do_send_def send_jobC_def
          init_state [OF assms])
qed

lemma pushed_job_can_be_delivered:
  assumes "RunParallelTaskPipeline n mcq provs = Inr p"
    and "compose_tasks (map jobTask (pipelines p)) x = Some v"
    and "all_continue (butlast (map jobTask (pipelines p))) x"
  shows "\<exists>es s. exec (EPushJob x # es) p = Some s \<and> received s = [(0, v)]"
proof -
  have wf: "wf_static p" using assms(1) by (rule wf_static_init)
  then have ne: "0 < length (pipelines p)"
    by (auto simp: wf_static_def unat_gt_0)
  from push_job_at [OF assms(1), of x] obtain s1 where
    1: "step (EPushJob x) p = Some s1" "job_at p 0 x s1"
    by blast
  from job_at_delivers [OF wf 1(2) ne refl, of v] assms(2,3) obtain es s where
    "exec es s1 = Some s" "received s = [(0, v)]"
    by auto
  with 1(1) show ?thesis by auto
qed

lemma all_continue_compose:
  "all_continue ts x \<Longrightarrow> \<exists>v. compose_tasks ts x = Some v"
  by (induction ts arbitrary: x) (auto split: sum.splits)

lemma all_continue_butlast:
  "all_continue ts x \<Longrightarrow> all_continue (butlast ts) x"
  by (induction ts arbitrary: x) (auto split: sum.splits)

text \<open>
  Claim C1. The stages of a freshly built pipeline have the tasks \<open>T\<^sub>1, \<dots>, T\<^sub>N\<close> their
  providers returned, in order. In every state a schedule reaches from it, every value a
  consumer has received from \<^verbatim>\<open>outputC\<close> for a job is \<open>T\<^sub>N(\<dots>T\<^sub>1(x))\<close> for the input
  \<open>x\<close> the job was pushed with, every stage before the last having said continue; the jobs
  whose outputs were received are, in the order of receipt, a subsequence of the jobs in the
  order they were admitted to the first stage; and those are different jobs. Moreover, when
  every stage's task says continue on a pushed input, there is a schedule that delivers
  \<open>T\<^sub>N(\<dots>T\<^sub>1(x))\<close> for it.
\<close>

theorem delivered_value_is_composition_in_push_order:
  assumes "RunParallelTaskPipeline n mcq provs = Inr p" and "exec es p = Some s"
  shows "map provider_Task provs = map Inr (map jobTask (pipelines p)) \<and>
         (\<forall>j v. (j, v) \<in> set (received s) \<longrightarrow>
            (\<exists>x. (j, x) \<in> set (admitted s 0) \<and>
                 compose_tasks (map jobTask (pipelines p)) x = Some v \<and>
                 all_continue (butlast (map jobTask (pipelines p))) x)) \<and>
         subseq (map fst (received s)) (map fst (admitted s 0)) \<and>
         distinct (map fst (admitted s 0)) \<and>
         (\<forall>x. all_continue (map jobTask (pipelines p)) x \<longrightarrow>
            (\<exists>v es' s'. compose_tasks (map jobTask (pipelines p)) x = Some v \<and>
               exec (EPushJob x # es') p = Some s' \<and> received s' = [(0, v)]))"
proof -
  have can: "\<exists>v es' s'. compose_tasks (map jobTask (pipelines p)) x = Some v \<and>
               exec (EPushJob x # es') p = Some s' \<and> received s' = [(0, v)]"
    if ac: "all_continue (map jobTask (pipelines p)) x" for x
  proof -
    from all_continue_compose [OF ac] obtain v where
      v: "compose_tasks (map jobTask (pipelines p)) x = Some v" ..
    from pushed_job_can_be_delivered [OF assms(1) v all_continue_butlast [OF ac]] v
    show ?thesis by blast
  qed
  have provs: "map provider_Task provs = map Inr (map jobTask (pipelines p))"
    using assms by (rule tasks_of_run(2))

  let ?ts = "map jobTask (pipelines s)"
  let ?n = "length (pipelines s) - 1"
  have inv: "pipe_inv s" using assms by (rule pipe_inv_exec)
  then have vc: "val_chain s" and vr: "val_recv s" and oc: "ord_chain s" and orr: "ord_recv s"
    and af: "adm_first s" and fi: "fifo_inv s" and wf: "wf_static s"
    by (simp_all add: pipe_inv_def run_inv_def heap_inv_def)
  have ts: "pipelines s = pipelines p" using assms by (rule tasks_of_run(1))
  from wf have ne: "pipelines s \<noteq> []"
    by (auto simp: wf_static_def unat_eq_0)
  then have lt: "?n < length ?ts" by simp
  have "take (Suc ?n) ?ts = take ?n ?ts @ [?ts ! ?n]"
    using lt by (rule take_Suc_conv_app_nth)
  moreover have "take (Suc ?n) ?ts = ?ts" using ne by simp
  moreover have "?ts ! ?n = jobTask (pipelines s ! ?n)" using ne by simp
  ultimately have split: "?ts = take ?n ?ts @ [jobTask (pipelines s ! ?n)]"
    by simp
  have bl: "butlast ?ts = take ?n ?ts"
    by (simp add: butlast_conv_take)
  have val: "\<exists>x. (j, x) \<in> set (admitted s 0) \<and> compose_tasks ?ts x = Some v \<and>
                 all_continue (butlast ?ts) x"
    if "(j, v) \<in> set (received s)" for j v
  proof -
    from that vr obtain x b where x: "(j, x) \<in> set (admitted s ?n)"
      "jobTask (pipelines s ! ?n) x = Inr (v, b)"
      unfolding val_recv_def by blast
    from admitted_from_first [OF vc x(1)] obtain x0 where x0: "(j, x0) \<in> set (admitted s 0)"
      "compose_tasks (take ?n ?ts) x0 = Some x" "all_continue (take ?n ?ts) x0"
      by auto
    have "compose_tasks (take ?n ?ts @ [jobTask (pipelines s ! ?n)]) x0 = Some v"
      using x0(2) x(2) by (simp add: compose_tasks_append)
    with split have "compose_tasks ?ts x0 = Some v" by simp
    with x0 bl show ?thesis by auto
  qed
  have ord: "subseq (map fst (received s)) (map fst (admitted s 0))"
  proof -
    have "subseq (map fst (received s)) (handled s ?n)"
      using orr by (simp add: ord_recv_def)
    moreover have "subseq (handled s ?n) (map fst (admitted s ?n))"
      using fifo_stageD [OF fi, of ?n] by (auto simp: fifo_stage_def)
    ultimately show ?thesis using admitted_subseq_first [OF oc fi, of ?n]
      by (blast intro: subseq_order.trans)
  qed
  from val ord af can provs show ?thesis
    unfolding ts by (simp add: adm_first_def)
qed

theorem delivered_value_is_composition_in_push_order_witness:
  "RunParallelTaskPipeline 3 [3, 2, 3] [demo_provider, demo_provider, demo_provider]
     = Inr demo3 \<and>
   map_option (\<lambda>s. (admitted s 0, received s)) (exec sched_two_jobs demo3)
     = Some ([(0, AString ''A''), (1, AString ''B'')],
             [(0, AString ''A processed processed processed''),
              (1, AString ''B processed processed processed'')]) \<and>
   map provider_Task [demo_provider, demo_provider, demo_provider]
     = map Inr (map jobTask (pipelines demo3)) \<and>
   (\<exists>x. (0, x) \<in> set [(0 :: nat, AString ''A''), (1, AString ''B'')] \<and>
        compose_tasks (map jobTask (pipelines demo3)) x
          = Some (AString ''A processed processed processed'')) \<and>
   subseq [0 :: nat, 1] [0, 1]"
proof -
  have c2: "map_option (\<lambda>s. (admitted s 0, received s)) (exec sched_two_jobs demo3)
     = Some ([(0, AString ''A''), (1, AString ''B'')],
             [(0, AString ''A processed processed processed''),
              (1, AString ''B processed processed processed'')])"
    by (simp add: sched_two_jobs_def demo3_eq run_defs)
  from c2 obtain z where e: "exec sched_two_jobs demo3 = Some z"
    and r: "admitted z 0 = [(0, AString ''A''), (1, AString ''B'')]"
      "received z = [(0, AString ''A processed processed processed''),
              (1, AString ''B processed processed processed'')]"
    by (auto simp only: map_option_eq_Some prod.inject)
  note th = delivered_value_is_composition_in_push_order [OF demo3_run e]
  from th have a: "\<And>j v. (j, v) \<in> set (received z) \<Longrightarrow>
      \<exists>x. (j, x) \<in> set (admitted z 0) \<and>
        compose_tasks (map jobTask (pipelines demo3)) x = Some v"
    by blast
  from th have c1: "map provider_Task [demo_provider, demo_provider, demo_provider]
     = map Inr (map jobTask (pipelines demo3))"
    by (rule conjunct1)
  have m: "(0, AString ''A processed processed processed'') \<in> set (received z)"
    unfolding r(2) by simp
  have c3: "\<exists>x. (0, x) \<in> set [(0 :: nat, AString ''A''), (1, AString ''B'')] \<and>
        compose_tasks (map jobTask (pipelines demo3)) x
          = Some (AString ''A processed processed processed'')"
    using a [OF m] unfolding r(1) .
  from th have "subseq (map fst (received z)) (map fst (admitted z 0))" by (rule conjunct2 [THEN conjunct2, THEN conjunct1])
  then have c4: "subseq [0 :: nat, 1] [0, 1]"
    unfolding r by simp
  show ?thesis by (intro conjI demo3_run c2 c1 c3 c4)
qed

end
